theory Spec2Isabelle
  imports Main "HOL-Library.AList" "HOL-Library.Char_ord" "HOL-Library.List_Lexorder"
    "HOL-Library.Sublist"
begin

section \<open>JavaScript objects used as dictionaries\<close>

text \<open>
  jsrundir keeps its tables (\<^verbatim>\<open>this.files\<close>, \<^verbatim>\<open>this.directories\<close>, \<^verbatim>\<open>#handlers\<close>) in
  plain object literals. Reading \<^verbatim>\<open>obj[k]\<close> on such an object first looks for an own property
  and then walks the prototype chain, so a key that names a member of \<^verbatim>\<open>Object.prototype\<close>
  yields that member (a function, or the prototype object itself for \<^verbatim>\<open>__proto__\<close>) instead
  of \<^verbatim>\<open>undefined\<close>. An object is an association list in insertion order, and a read returns
  one of three things.
\<close>

datatype 'a jsval = Undefined | Own 'a | Inherited string

definition object_prototype_keys :: "string list" where
  "object_prototype_keys =
     [''constructor'', ''__defineGetter__'', ''__defineSetter__'', ''hasOwnProperty'',
      ''__lookupGetter__'', ''__lookupSetter__'', ''isPrototypeOf'', ''propertyIsEnumerable'',
      ''toString'', ''valueOf'', ''__proto__'', ''toLocaleString'']"

definition js_get :: "(string \<times> 'a) list \<Rightarrow> string \<Rightarrow> 'a jsval" where
  "js_get obj k =
     (case map_of obj k of
        Some v \<Rightarrow> Own v
      | None \<Rightarrow> if k \<in> set object_prototype_keys then Inherited k else Undefined)"

text \<open>Every own value stored by the program is an object or an array, and every inherited
  member is a function or an object: all of them are truthy. Only \<^verbatim>\<open>undefined\<close> is falsy.\<close>

fun truthy :: "'a jsval \<Rightarrow> bool" where
  "truthy Undefined = False"
| "truthy (Own v) = True"
| "truthy (Inherited k) = True"

section \<open>Entries and the file system\<close>

text \<open>The object built by \<^verbatim>\<open>fileInfo\<close>.\<close>

record info =
  path :: string
  name :: string
  isFile :: bool
  isDirectory :: bool

text \<open>What \<^verbatim>\<open>fs.statSync(p, { throwIfNoEntry: false })\<close> reports: \<^verbatim>\<open>undefined\<close> for a missing
  entry, otherwise a \<^verbatim>\<open>Stats\<close> object that is a regular file, a directory or something else.
  The file system is a parameter of the model; \<^verbatim>\<open>fs.readdirSync\<close> and \<^verbatim>\<open>fs.watch\<close> are
  taken to succeed.\<close>

datatype kind = File | Directory | Other

record filesystem =
  readdirSync :: "string \<Rightarrow> string list"
  statSync :: "string \<Rightarrow> kind option"

text \<open>\<^verbatim>\<open>path.join(dir, child)\<close> for a normalised directory path and a single path component.\<close>

definition path_join :: "string \<Rightarrow> string \<Rightarrow> string" where
  "path_join dir child = dir @ ''/'' @ child"

definition fileInfo :: "string \<Rightarrow> string \<Rightarrow> kind option \<Rightarrow> info" where
  "fileInfo p n stat =
     \<lparr> path = p, name = n,
       isFile = (case stat of None \<Rightarrow> False | Some k \<Rightarrow> k = File),
       isDirectory = (case stat of None \<Rightarrow> False | Some k \<Rightarrow> k = Directory) \<rparr>"

text \<open>Both the listener and the initial scan build the entry of a child the same way: join
  the paths, stat the result, call \<^verbatim>\<open>fileInfo\<close>.\<close>

definition child_info :: "filesystem \<Rightarrow> string \<Rightarrow> string \<Rightarrow> info" where
  "child_info fs dir file =
     fileInfo (path_join dir file) file (statSync fs (path_join dir file))"

section \<open>RunWatcher\<close>

datatype handle = FSWatcher string

record RunWatcher =
  path :: string
  files :: "(string \<times> info) list"
  watcher :: "handle option"
  directories :: "(string \<times> info) list option"

text \<open>\<^verbatim>\<open>new RunWatcher(target, subdirs)\<close>: \<^verbatim>\<open>directories\<close> stays \<^verbatim>\<open>undefined\<close> unless
  \<^verbatim>\<open>subdirs\<close> is set.\<close>

definition new_RunWatcher :: "string \<Rightarrow> bool \<Rightarrow> RunWatcher" where
  "new_RunWatcher target subdirs =
     \<lparr> path = target, files = [], watcher = None,
       directories = (if subdirs then Some [] else None) \<rparr>"

text \<open>\<^verbatim>\<open>name[0] != '.'\<close>: the empty string has no first character and passes.\<close>

fun not_hidden :: "string \<Rightarrow> bool" where
  "not_hidden [] = True"
| "not_hidden (c # cs) = (c \<noteq> CHR ''.'')"

definition endsWith :: "string \<Rightarrow> string \<Rightarrow> bool" where
  "endsWith s suf = (length suf \<le> length s \<and> drop (length s - length suf) s = suf)"

text \<open>\<^verbatim>\<open>checkFile\<close>; \<open>realname\<close> is the module constant \<^verbatim>\<open>__realname\<close>, the resolved path
  of jsrundir.js itself.\<close>

definition checkFile :: "string \<Rightarrow> RunWatcher \<Rightarrow> string \<Rightarrow> string \<Rightarrow> bool" where
  "checkFile realname w p n =
     (not_hidden n \<and> (endsWith n ''.js'' \<or> endsWith n ''.json'') \<and> p \<noteq> realname
      \<and> \<not> truthy (js_get (files w) n))"

definition checkDirectory :: "RunWatcher \<Rightarrow> string \<Rightarrow> string \<Rightarrow> bool" where
  "checkDirectory w p n =
     (not_hidden n \<and>
      (case directories w of None \<Rightarrow> False | Some ds \<Rightarrow> \<not> truthy (js_get ds n)))"

text \<open>
  The callbacks \<^verbatim>\<open>this.added\<close> and \<^verbatim>\<open>this.removed\<close> are supplied by the caller. The
  watcher is modelled with the calls it makes recorded in order, together with the two
  operations on the native handle (\<^verbatim>\<open>fs.watch\<close> and \<^verbatim>\<open>close\<close>). \<^verbatim>\<open>removed\<close> receives
  whatever the table lookup returned, which may be an inherited member.
\<close>

datatype action = InstallHandle | CloseHandle | Added info | Removed "info jsval"

datatype error = AlreadyWatching string | NotWatching string | TypeError | Thrown string

text \<open>An operation returns the watcher as it left it, the calls made so far, and the
  exception that ended it, if any.\<close>

type_synonym outcome = "RunWatcher \<times> action list \<times> error option"

definition and_then :: "outcome \<Rightarrow> (RunWatcher \<Rightarrow> outcome) \<Rightarrow> outcome" where
  "and_then r f =
     (case r of
        (w, tr, Some e) \<Rightarrow> (w, tr, Some e)
      | (w, tr, None) \<Rightarrow> (case f w of (w', tr', x) \<Rightarrow> (w', tr @ tr', x)))"

text \<open>\<^verbatim>\<open>info.name\<close> of a callback argument. Reading it from \<^verbatim>\<open>undefined\<close> throws; an
  inherited function carries its own name (\<^verbatim>\<open>Object\<close> for \<^verbatim>\<open>constructor\<close>), and
  \<^verbatim>\<open>Object.prototype\<close> has no \<^verbatim>\<open>name\<close>, which as a property key reads \<^verbatim>\<open>undefined\<close>.\<close>

fun name_of :: "info jsval \<Rightarrow> string option" where
  "name_of Undefined = None"
| "name_of (Own i) = Some (info.name i)"
| "name_of (Inherited k) =
     Some (if k = ''constructor'' then ''Object''
           else if k = ''__proto__'' then ''undefined'' else k)"

definition fileAdded :: "string \<Rightarrow> info \<Rightarrow> RunWatcher \<Rightarrow> outcome" where
  "fileAdded realname i w =
     (if \<not> checkFile realname w (info.path i) (info.name i) then (w, [], None)
      else (w\<lparr>files := AList.update (info.name i) i (files w)\<rparr>, [Added i], None))"

definition fileRemoved :: "info jsval \<Rightarrow> RunWatcher \<Rightarrow> outcome" where
  "fileRemoved x w =
     (case name_of x of
        None \<Rightarrow> (w, [], Some TypeError)
      | Some n \<Rightarrow> (w\<lparr>files := AList.delete n (files w)\<rparr>, [Removed x], None))"

definition directoryAdded :: "info \<Rightarrow> RunWatcher \<Rightarrow> outcome" where
  "directoryAdded i w =
     (if \<not> checkDirectory w (info.path i) (info.name i) then (w, [], None)
      else (case directories w of
              None \<Rightarrow> (w, [], Some TypeError)
            | Some ds \<Rightarrow>
                (w\<lparr>directories := Some (AList.update (info.name i) i ds)\<rparr>, [Added i], None)))"

definition directoryRemoved :: "info jsval \<Rightarrow> RunWatcher \<Rightarrow> outcome" where
  "directoryRemoved x w =
     (case directories w of
        None \<Rightarrow> (w, [], Some TypeError)
      | Some ds \<Rightarrow>
          (case name_of x of
             None \<Rightarrow> (w, [], Some TypeError)
           | Some n \<Rightarrow> (w\<lparr>directories := Some (AList.delete n ds)\<rparr>, [Removed x], None)))"

text \<open>The listener passed to \<^verbatim>\<open>fs.watch\<close>, in its two halves: the \<^verbatim>\<open>if\<close>/\<^verbatim>\<open>else if\<close>
  that removes, and the \<^verbatim>\<open>if\<close>/\<^verbatim>\<open>else if\<close> that adds. \<open>event\<close> is only logged.\<close>

definition reconcile_remove :: "RunWatcher \<Rightarrow> string \<Rightarrow> info \<Rightarrow> outcome" where
  "reconcile_remove w file i =
     (if truthy (js_get (files w) file) then fileRemoved (js_get (files w) file) w
      else (case directories w of
              None \<Rightarrow> (w, [], None)
            | Some ds \<Rightarrow>
                if truthy (js_get ds file) \<and> \<not> isDirectory i
                then directoryRemoved (js_get ds file) w
                else (w, [], None)))"

definition reconcile_add :: "string \<Rightarrow> info \<Rightarrow> RunWatcher \<Rightarrow> outcome" where
  "reconcile_add realname i w =
     (if isFile i then fileAdded realname i w
      else if isDirectory i then directoryAdded i w
      else (w, [], None))"

definition native_callback ::
  "filesystem \<Rightarrow> string \<Rightarrow> RunWatcher \<Rightarrow> string \<Rightarrow> string \<Rightarrow> outcome" where
  "native_callback fs realname w event file =
     (let i = child_info fs (RunWatcher.path w) file
      in and_then (reconcile_remove w file i) (reconcile_add realname i))"

text \<open>The two loops of the initial scan.\<close>

fun add_files :: "string \<Rightarrow> info list \<Rightarrow> RunWatcher \<Rightarrow> outcome" where
  "add_files realname [] w = (w, [], None)"
| "add_files realname (i # is) w =
     and_then (if isFile i then fileAdded realname i w else (w, [], None))
       (add_files realname is)"

fun add_directories :: "info list \<Rightarrow> RunWatcher \<Rightarrow> outcome" where
  "add_directories [] w = (w, [], None)"
| "add_directories (i # is) w =
     and_then (if isDirectory i then directoryAdded i w else (w, [], None))
       (add_directories is)"

definition scan_infos :: "filesystem \<Rightarrow> string \<Rightarrow> info list" where
  "scan_infos fs dir =
     map (child_info fs dir) (sort (readdirSync fs dir))"

definition watch :: "filesystem \<Rightarrow> string \<Rightarrow> RunWatcher \<Rightarrow> outcome" where
  "watch fs realname w =
     (case watcher w of
        Some h \<Rightarrow> (w, [], Some (AlreadyWatching (RunWatcher.path w)))
      | None \<Rightarrow>
          and_then (w\<lparr>watcher := Some (FSWatcher (RunWatcher.path w @ ''/.''))\<rparr>,
                    [InstallHandle], None)
            (\<lambda>w1. and_then (add_files realname (scan_infos fs (RunWatcher.path w1)) w1)
                     (add_directories (scan_infos fs (RunWatcher.path w1)))))"

text \<open>The two loops of \<^verbatim>\<open>stop\<close>: the keys are listed once, each value is read when its
  turn comes.\<close>

fun remove_directories :: "string list \<Rightarrow> RunWatcher \<Rightarrow> outcome" where
  "remove_directories [] w = (w, [], None)"
| "remove_directories (d # ds) w =
     and_then (case directories w of
                 None \<Rightarrow> (w, [], Some TypeError)
               | Some m \<Rightarrow> directoryRemoved (js_get m d) w)
       (remove_directories ds)"

fun remove_files :: "string list \<Rightarrow> RunWatcher \<Rightarrow> outcome" where
  "remove_files [] w = (w, [], None)"
| "remove_files (f # fs) w =
     and_then (fileRemoved (js_get (files w) f) w) (remove_files fs)"

definition stop :: "RunWatcher \<Rightarrow> outcome" where
  "stop w =
     (case watcher w of
        None \<Rightarrow> (w, [], Some (NotWatching (RunWatcher.path w)))
      | Some h \<Rightarrow>
          and_then (w\<lparr>watcher := None\<rparr>, [CloseHandle], None)
            (\<lambda>w1. and_then
                     (case directories w1 of
                        None \<Rightarrow> (w1, [], None)
                      | Some m \<Rightarrow> remove_directories (rev (sort (map fst m))) w1)
                     (\<lambda>w2. remove_files (rev (sort (map fst (files w2)))) w2)))"


text \<open>The entries of a table in descending order of their keys, as the loops of
  \<^verbatim>\<open>stop\<close> visit them.\<close>

definition entries_descending :: "(string \<times> info) list \<Rightarrow> info list" where
  "entries_descending al = map snd (rev (sort_key fst al))"

section \<open>Watcher states that the operations can produce\<close>

text \<open>
  Every entry is stored under its own name, is the child of the watched directory with that
  name, and passed the eligibility test when it was added; no name is tracked twice or in
  both tables; and a watcher without a handle tracks nothing. A fresh watcher is such a
  state and every operation below keeps it so.
\<close>

definition file_entry_ok :: "string \<Rightarrow> string \<Rightarrow> string \<times> info \<Rightarrow> bool" where
  "file_entry_ok realname dir ke =
     (info.name (snd ke) = fst ke \<and> info.path (snd ke) = path_join dir (fst ke)
      \<and> not_hidden (fst ke) \<and> (endsWith (fst ke) ''.js'' \<or> endsWith (fst ke) ''.json'')
      \<and> info.path (snd ke) \<noteq> realname \<and> isFile (snd ke) \<and> \<not> isDirectory (snd ke))"

definition directory_entry_ok :: "string \<Rightarrow> string \<times> info \<Rightarrow> bool" where
  "directory_entry_ok dir ke =
     (info.name (snd ke) = fst ke \<and> info.path (snd ke) = path_join dir (fst ke)
      \<and> not_hidden (fst ke) \<and> fst ke \<notin> set object_prototype_keys
      \<and> isDirectory (snd ke) \<and> \<not> isFile (snd ke))"

definition tracked_directories :: "RunWatcher \<Rightarrow> (string \<times> info) list" where
  "tracked_directories w = (case directories w of None \<Rightarrow> [] | Some ds \<Rightarrow> ds)"

definition wf_watcher :: "string \<Rightarrow> RunWatcher \<Rightarrow> bool" where
  "wf_watcher realname w =
     (distinct (map fst (files w)) \<and> distinct (map fst (tracked_directories w))
      \<and> list_all (file_entry_ok realname (RunWatcher.path w)) (files w)
      \<and> list_all (directory_entry_ok (RunWatcher.path w)) (tracked_directories w)
      \<and> list_all (\<lambda>k. k \<notin> set (map fst (tracked_directories w))) (map fst (files w))
      \<and> (if watcher w = None then files w = [] \<and> tracked_directories w = [] else True))"

section \<open>Vocabulary for the watcher's properties\<close>

text \<open>An entry of the scan is eligible when it is a file that passes \<^verbatim>\<open>checkFile\<close>, or a
  directory that passes \<^verbatim>\<open>checkDirectory\<close>; the scan's lists of eligible entries keep the
  sorted order of the listing.\<close>

definition eligible_file :: "string \<Rightarrow> RunWatcher \<Rightarrow> info \<Rightarrow> bool" where
  "eligible_file realname w i = (isFile i \<and> checkFile realname w (info.path i) (info.name i))"

definition eligible_directory :: "RunWatcher \<Rightarrow> info \<Rightarrow> bool" where
  "eligible_directory w i = (isDirectory i \<and> checkDirectory w (info.path i) (info.name i))"

definition scanned_files :: "filesystem \<Rightarrow> string \<Rightarrow> RunWatcher \<Rightarrow> info list" where
  "scanned_files fs realname w =
     filter (eligible_file realname w) (scan_infos fs (RunWatcher.path w))"

definition scanned_directories :: "filesystem \<Rightarrow> RunWatcher \<Rightarrow> info list" where
  "scanned_directories fs w = filter (eligible_directory w) (scan_infos fs (RunWatcher.path w))"

fun is_Added :: "action \<Rightarrow> bool" where
  "is_Added (Added i) = True"
| "is_Added a = False"

text \<open>The order the specification describes for \<^verbatim>\<open>watch\<close>: every call of the scan first,
  the native handle last.\<close>

definition installs_handle_last :: "action list \<Rightarrow> bool" where
  "installs_handle_last tr =
     (case rev tr of [] \<Rightarrow> False | a # before \<Rightarrow> a = InstallHandle \<and> list_all is_Added before)"

text \<open>The entry a recorded call is about, if it is about one.\<close>

fun entry_of :: "action \<Rightarrow> info option" where
  "entry_of (Added i) = Some i"
| "entry_of (Removed (Own i)) = Some i"
| "entry_of a = None"

text \<open>A call is about a file of the watched directory itself when its entry, if it has one,
  is a file, is not a directory and lies directly in that directory.\<close>

definition about_own_file :: "string \<Rightarrow> action \<Rightarrow> bool" where
  "about_own_file dir a =
     (case entry_of a of
        None \<Rightarrow> True
      | Some i \<Rightarrow> isFile i \<and> \<not> isDirectory i \<and> info.path i = path_join dir (info.name i))"


section \<open>The engine: handler registry and notification queue\<close>

text \<open>
  A callback (a registered handler or a lifecycle hook of a loaded module) is named by a
  number. What a call of it does is a parameter of the model: it returns a value that is not a
  promise, it throws, or it returns a promise that is later fulfilled, later rejected, or never
  settled.
\<close>

datatype handler = Handler nat

datatype behaviour = Returns | Throws error | Resolves | Rejects error | Hangs

text \<open>What \<^verbatim>\<open>require\<close> returns, as far as the engine looks at it: a falsy value, or a value
  whose \<^verbatim>\<open>jsrundir\<close> property is not an object, is \<^verbatim>\<open>null\<close> (for which \<^verbatim>\<open>typeof\<close> also
  says object), or is an object whose \<^verbatim>\<open>onLoad\<close> and \<^verbatim>\<open>onUnload\<close> are functions or not.\<close>

datatype jsrundir_property = Absent | Null | Object "handler option" "handler option"

datatype module_exports = FalsyExports | Exports nat jsrundir_property

datatype arg = Str string | Mod module_exports

type_synonym behaviours = "handler \<Rightarrow> arg list \<Rightarrow> behaviour"

text \<open>The first argument of \<^verbatim>\<open>#notify\<close>: an event name or a function.\<close>

datatype event = Named string | Callback handler

text \<open>
  Each call of \<^verbatim>\<open>#notify\<close> builds a chain of three promises. The model keeps, for the call
  with number \<open>n\<close>, where that chain stands: the first promise is pending (\<open>Waiting\<close>); it is
  resolved and the first \<^verbatim>\<open>then\<close> callback is due (\<open>Released\<close>); that callback has run and
  the promises of the handlers listed in \<open>pending\<close> are not settled yet (\<open>Running\<close>); the
  second \<^verbatim>\<open>then\<close> callback has run (\<open>Done\<close>); or the first callback threw, so that the second
  one never runs (\<open>Failed\<close>).
\<close>

datatype phase = Waiting | Released | Running | Done | Failed

record batch =
  batch_event :: event
  batch_args :: "arg list"
  phase :: phase
  pending :: "handler list"

text \<open>What an observer sees of the queue, in order.\<close>

datatype obs = Began nat | Invoked nat handler "arg list" | Completed nat

text \<open>
  The engine object with its four private fields, followed by the state around it that the
  model needs: the promise chains, the observations, \<^verbatim>\<open>require.cache\<close> and what \<^verbatim>\<open>error\<close>
  printed. \<^verbatim>\<open>#queue\<close> holds the \<^verbatim>\<open>resolve\<close> functions of the first promises, each written
  as the number of its call.
\<close>

record RunDir =
  targets :: "string list"
  watchers :: "(string \<times> RunWatcher) list"
  queue :: "nat list"
  handlers :: "(string \<times> handler list) list"
  batches :: "batch list"
  history :: "obs list"
  cache :: "(string \<times> module_exports) list"
  console :: "error list"

definition new_RunDir :: RunDir where
  "new_RunDir =
     \<lparr> targets = [], watchers = [], queue = [],
       handlers = [(''load'', []), (''unload'', [])],
       batches = [], history = [], cache = [], console = [] \<rparr>"

text \<open>\<^verbatim>\<open>on(event, handler)\<close>: \<^verbatim>\<open>push\<close> exists on the two arrays only; on an inherited member
  the call of the missing \<^verbatim>\<open>push\<close> throws a \<^verbatim>\<open>TypeError\<close>.\<close>

definition on :: "string \<Rightarrow> handler \<Rightarrow> RunDir \<Rightarrow> RunDir \<times> error option" where
  "on ev h st =
     (case js_get (handlers st) ev of
        Undefined \<Rightarrow> (st, None)
      | Own hs \<Rightarrow> (st\<lparr>handlers := AList.update ev (hs @ [h]) (handlers st)\<rparr>, None)
      | Inherited k \<Rightarrow> (st, Some TypeError))"

text \<open>The synchronous part of \<^verbatim>\<open>#notify\<close>: push the \<^verbatim>\<open>resolve\<close> function and call it at
  once when it is alone in the queue.\<close>

definition notify :: "event \<Rightarrow> arg list \<Rightarrow> RunDir \<Rightarrow> RunDir" where
  "notify ev as st =
     (let n = length (batches st); q = queue st @ [n]
      in st\<lparr>queue := q,
            batches := batches st @
              [\<lparr> batch_event = ev, batch_args = as,
                 phase = (if length q = 1 then Released else Waiting), pending = [] \<rparr>]\<rparr>)"

text \<open>\<^verbatim>\<open>typeof event === "function" ? [ event ] : this.#handlers[event]\<close>\<close>

definition resolve_handlers :: "RunDir \<Rightarrow> event \<Rightarrow> handler list jsval" where
  "resolve_handlers st ev =
     (case ev of Callback h \<Rightarrow> Own [h] | Named e \<Rightarrow> js_get (handlers st) e)"

fun is_async :: "behaviour \<Rightarrow> bool" where
  "is_async Resolves = True"
| "is_async (Rejects e) = True"
| "is_async Hangs = True"
| "is_async b = False"

fun thrown :: "behaviour \<Rightarrow> error list" where
  "thrown (Throws e) = [e]"
| "thrown b = []"

text \<open>
  The first \<^verbatim>\<open>then\<close> callback of call \<open>n\<close>, which runs once its first promise is resolved.
  With no handler list it returns at once. Otherwise \<^verbatim>\<open>handlers.map\<close> calls every handler
  in order with the arguments of the call; a handler that throws has its error caught and
  printed; a handler that returns a promise leaves it pending. On an inherited member
  \<^verbatim>\<open>handlers.map\<close> is not a function and the callback throws.
\<close>

definition run_batch :: "behaviours \<Rightarrow> nat \<Rightarrow> RunDir \<Rightarrow> RunDir option" where
  "run_batch beh n st =
     (if n < length (batches st) \<and> phase (batches st ! n) = Released then
        (let b = batches st ! n in
         case resolve_handlers st (batch_event b) of
           Undefined \<Rightarrow>
             Some (st\<lparr>batches := (batches st)[n := b\<lparr>phase := Running, pending := []\<rparr>],
                      history := history st @ [Began n]\<rparr>)
         | Inherited k \<Rightarrow>
             Some (st\<lparr>batches := (batches st)[n := b\<lparr>phase := Failed\<rparr>],
                      history := history st @ [Began n]\<rparr>)
         | Own hs \<Rightarrow>
             Some (st\<lparr>batches := (batches st)[n := b\<lparr>phase := Running,
                         pending := filter (\<lambda>h. is_async (beh h (batch_args b))) hs\<rparr>],
                      history := history st @ [Began n]
                         @ map (\<lambda>h. Invoked n h (batch_args b)) hs,
                      console := console st
                         @ concat (map (\<lambda>h. thrown (beh h (batch_args b))) hs)\<rparr>))
      else None)"

text \<open>The promise returned by the \<open>k\<close>-th pending handler of call \<open>n\<close> settles; a rejection
  is caught and printed.\<close>

definition settle :: "behaviours \<Rightarrow> nat \<Rightarrow> nat \<Rightarrow> RunDir \<Rightarrow> RunDir option" where
  "settle beh n k st =
     (if n < length (batches st) \<and> phase (batches st ! n) = Running
         \<and> k < length (pending (batches st ! n)) then
        (let b = batches st ! n;
             rest = take k (pending b) @ drop (Suc k) (pending b)
         in case beh (pending b ! k) (batch_args b) of
              Resolves \<Rightarrow> Some (st\<lparr>batches := (batches st)[n := b\<lparr>pending := rest\<rparr>]\<rparr>)
            | Rejects e \<Rightarrow>
                Some (st\<lparr>batches := (batches st)[n := b\<lparr>pending := rest\<rparr>],
                         console := console st @ [e]\<rparr>)
            | _ \<Rightarrow> None)
      else None)"

text \<open>\<^verbatim>\<open>this.#queue[0]()\<close>: resolving a promise that is already resolved does nothing.\<close>

definition release :: "nat \<Rightarrow> batch list \<Rightarrow> batch list" where
  "release m bs =
     (if m < length bs \<and> phase (bs ! m) = Waiting then bs[m := (bs ! m)\<lparr>phase := Released\<rparr>]
      else bs)"

text \<open>The second \<^verbatim>\<open>then\<close> callback of call \<open>n\<close>, which runs once every handler promise of
  the call has settled: \<^verbatim>\<open>shift\<close> the queue and call the new head, if there is one.\<close>

definition finish :: "nat \<Rightarrow> RunDir \<Rightarrow> RunDir option" where
  "finish n st =
     (if n < length (batches st) \<and> phase (batches st ! n) = Running
         \<and> pending (batches st ! n) = [] then
        (let q = tl (queue st);
             bs = (batches st)[n := (batches st ! n)\<lparr>phase := Done\<rparr>]
         in Some (st\<lparr>queue := q,
                     batches := (case q of [] \<Rightarrow> bs | m # rest \<Rightarrow> release m bs),
                     history := history st @ [Completed n]\<rparr>))
      else None)"

text \<open>
  Everything that can happen to the queue, one step at a time: a call of \<^verbatim>\<open>#notify\<close> or of
  \<^verbatim>\<open>on\<close> from outside, or the event loop running a callback that is due. A step that is not
  due yields \<open>None\<close>. A schedule is any list of steps.
\<close>

datatype step = Notify event "arg list" | On string handler | RunBatch nat | Settle nat nat
  | Finish nat

fun take_step :: "behaviours \<Rightarrow> step \<Rightarrow> RunDir \<Rightarrow> RunDir option" where
  "take_step beh (Notify ev as) st = Some (notify ev as st)"
| "take_step beh (On ev h) st = Some (fst (on ev h st))"
| "take_step beh (RunBatch n) st = run_batch beh n st"
| "take_step beh (Settle n k) st = settle beh n k st"
| "take_step beh (Finish n) st = finish n st"

fun execute :: "behaviours \<Rightarrow> step list \<Rightarrow> RunDir \<Rightarrow> RunDir option" where
  "execute beh [] st = Some st"
| "execute beh (s # ss) st =
     (case take_step beh s st of None \<Rightarrow> None | Some st' \<Rightarrow> execute beh ss st')"

text \<open>A batch is under way from the moment its first promise is resolved until its second
  callback has run.\<close>

definition under_way :: "batch \<Rightarrow> bool" where
  "under_way b = (phase b \<noteq> Waiting \<and> phase b \<noteq> Done)"

fun is_mark :: "obs \<Rightarrow> bool" where
  "is_mark (Began n) = True"
| "is_mark (Completed n) = True"
| "is_mark (Invoked n h as) = False"

text \<open>The begin and completion marks of the first \<open>n\<close> calls, one call after the other.\<close>

definition one_by_one :: "nat \<Rightarrow> obs list" where
  "one_by_one n = concat (map (\<lambda>i. [Began i, Completed i]) [0..<n])"


text \<open>
  The shape of the queue after \<open>d\<close> calls have completed: the queue holds the numbers of the
  calls from \<open>d\<close> on, the calls before \<open>d\<close> are done with no handler promise left, the calls after \<open>d\<close> wait, call \<open>d\<close>
  (when it exists) is the one under way, and the marks observed so far are those of the first
  \<open>d\<close> calls one by one, followed by the begin mark of call \<open>d\<close> once its first callback ran.
\<close>

definition queue_inv :: "RunDir \<Rightarrow> nat \<Rightarrow> bool" where
  "queue_inv st d =
     (d \<le> length (batches st)
      \<and> queue st = [d..<length (batches st)]
      \<and> (\<forall>i<d. phase (batches st ! i) = Done \<and> pending (batches st ! i) = [])
      \<and> (\<forall>i. d < i \<and> i < length (batches st) \<longrightarrow> phase (batches st ! i) = Waiting)
      \<and> (d < length (batches st) \<longrightarrow> phase (batches st ! d) \<in> {Released, Running, Failed})
      \<and> filter is_mark (history st) =
          one_by_one d @ (if d < length (batches st) \<and> phase (batches st ! d) \<in> {Running, Failed}
                          then [Began d] else []))"


text \<open>
  Three more facts about the batches, used to show that the queue drains. Every promise
  still listed as pending came from a handler that returned a promise. A batch has failed
  only if its event is a name that \<^verbatim>\<open>Object.prototype\<close> defines. And the condition under
  which no batch can fail: no call names such a member.
\<close>

definition pending_ok :: "behaviours \<Rightarrow> RunDir \<Rightarrow> bool" where
  "pending_ok beh st =
     list_all (\<lambda>b. list_all (\<lambda>h. is_async (beh h (batch_args b))) (pending b)) (batches st)"

fun names_inherited :: "event \<Rightarrow> bool" where
  "names_inherited (Named e) = (e \<in> set object_prototype_keys)"
| "names_inherited (Callback h) = False"

definition failed_ok :: "RunDir \<Rightarrow> bool" where
  "failed_ok st = list_all (\<lambda>b. phase b \<noteq> Failed \<or> names_inherited (batch_event b)) (batches st)"

definition events_ok :: "RunDir \<Rightarrow> bool" where
  "events_ok st = list_all (\<lambda>b. \<not> names_inherited (batch_event b)) (batches st)"

fun internal :: "step \<Rightarrow> bool" where
  "internal (Notify ev as) = False"
| "internal (On ev h) = False"
| "internal s = True"


section \<open>The engine: loading scripts and the adder\<close>

text \<open>
  The Script Loader is \<^verbatim>\<open>require\<close>. Running the file at a path either throws or yields the
  module's exports; that outcome is a parameter of the model. \<^verbatim>\<open>require\<close> returns a cached
  module without running anything, caches a module that loaded, and caches nothing for one
  that threw. The keys of \<^verbatim>\<open>require.cache\<close> and of \<^verbatim>\<open>#watchers\<close> are absolute paths.
\<close>

type_synonym loader = "string \<Rightarrow> error + module_exports"

definition require ::
  "loader \<Rightarrow> (string \<times> module_exports) list \<Rightarrow> string
     \<Rightarrow> (error + module_exports) \<times> (string \<times> module_exports) list" where
  "require ld c p =
     (case map_of c p of
        Some m \<Rightarrow> (Inr m, c)
      | None \<Rightarrow> (case ld p of
                   Inl e \<Rightarrow> (Inl e, c)
                 | Inr m \<Rightarrow> (Inr m, AList.update p m c)))"

text \<open>\<^verbatim>\<open>loaded && typeof loaded.jsrundir === "object" && typeof loaded.jsrundir.onLoad === "function"\<close>:
  the hook to queue, if any; reading \<^verbatim>\<open>onLoad\<close> from \<^verbatim>\<open>null\<close> throws.\<close>

fun onLoad_hook :: "module_exports \<Rightarrow> error + handler option" where
  "onLoad_hook FalsyExports = Inr None"
| "onLoad_hook (Exports n Absent) = Inr None"
| "onLoad_hook (Exports n Null) = Inl TypeError"
| "onLoad_hook (Exports n (Object onLoad onUnload)) = Inr onLoad"

text \<open>The file branch of \<^verbatim>\<open>adder\<close>: the body of the \<^verbatim>\<open>try\<close>, and the \<^verbatim>\<open>catch\<close> that prints
  whatever it threw.\<close>

definition adder_file :: "loader \<Rightarrow> info \<Rightarrow> RunDir \<Rightarrow> RunDir" where
  "adder_file ld a st =
     (case require ld (cache st) (info.path a) of
        (Inl e, c) \<Rightarrow> st\<lparr>cache := c, console := console st @ [e]\<rparr>
      | (Inr loaded, c) \<Rightarrow>
          (case onLoad_hook loaded of
             Inl e \<Rightarrow> st\<lparr>cache := c, console := console st @ [e]\<rparr>
           | Inr None \<Rightarrow>
               notify (Named ''load'') [Str (info.path a), Mod loaded] (st\<lparr>cache := c\<rparr>)
           | Inr (Some h) \<Rightarrow>
               notify (Named ''load'') [Str (info.path a), Mod loaded]
                 (notify (Callback h) [] (st\<lparr>cache := c\<rparr>))))"

text \<open>
  A watcher started by the engine calls the engine's \<^verbatim>\<open>adder\<close> for every entry it adds. The
  entries a run of the watcher handed to \<^verbatim>\<open>added\<close> are read off its record, and the adder is
  applied to them in that order; an exception of the adder ends the run.
\<close>

fun added_entries :: "action list \<Rightarrow> info list" where
  "added_entries [] = []"
| "added_entries (Added i # tr) = i # added_entries tr"
| "added_entries (a # tr) = added_entries tr"

fun each_added ::
  "(info \<Rightarrow> RunDir \<Rightarrow> RunDir \<times> error option) \<Rightarrow> info list \<Rightarrow> RunDir
     \<Rightarrow> RunDir \<times> error option" where
  "each_added f [] st = (st, None)"
| "each_added f (i # is) st =
     (case f i st of
        (st', Some e) \<Rightarrow> (st', Some e)
      | (st', None) \<Rightarrow> each_added f is st')"

text \<open>\<^verbatim>\<open>add(target)\<close> for a resolved path.\<close>

datatype usage_error = NotADirectory string | AlreadyWatchingTarget string | NoSuchEntry string

definition add :: "filesystem \<Rightarrow> string \<Rightarrow> RunDir \<Rightarrow> RunDir \<times> usage_error option" where
  "add fs target st =
     (case statSync fs target of
        None \<Rightarrow> (st, Some (NoSuchEntry target))
      | Some k \<Rightarrow>
          if k \<noteq> Directory then (st, Some (NotADirectory target))
          else if truthy (js_get (watchers st) target) then (st, Some (AlreadyWatchingTarget target))
          else (st\<lparr>targets := targets st @ [target],
                   watchers := AList.update target (new_RunWatcher target True) (watchers st)\<rparr>,
                None))"


section \<open>A concrete directory tree\<close>

text \<open>The tree used to evaluate the model: a root \<^verbatim>\<open>/srv\<close> holding two scripts, two
  directories, a hidden script and a text file; the directory \<^verbatim>\<open>/srv/a\<close> holds a script
  and a directory of its own.\<close>

definition demo_fs :: filesystem where
  "demo_fs =
     \<lparr> readdirSync = (\<lambda>dir.
         if dir = ''/srv'' then [''b.js'', ''z'', ''a.js'', ''a'', ''.env.js'', ''notes.txt'']
         else if dir = ''/srv/a'' then [''x.js'', ''deep'']
         else []),
       statSync = map_of
         [(''/srv'', Directory),
          (''/srv/b.js'', File), (''/srv/z'', Directory), (''/srv/a.js'', File),
          (''/srv/a'', Directory), (''/srv/.env.js'', File), (''/srv/notes.txt'', File),
          (''/srv/a/x.js'', File), (''/srv/a/deep'', Directory)] \<rparr>"

definition demo_realname :: string where
  "demo_realname = ''/opt/jsrundir/jsrundir.js''"

definition demo_entry :: "string \<Rightarrow> string \<Rightarrow> kind \<Rightarrow> info" where
  "demo_entry dir file k = fileInfo (path_join dir file) file (Some k)"

text \<open>The root watcher after \<^verbatim>\<open>watch\<close> on that tree, written out.\<close>

definition demo_root :: RunWatcher where
  "demo_root =
     \<lparr> path = ''/srv'',
       files = [(''a.js'', demo_entry ''/srv'' ''a.js'' File),
                (''b.js'', demo_entry ''/srv'' ''b.js'' File)],
       watcher = Some (FSWatcher ''/srv/.''),
       directories = Some [(''a'', demo_entry ''/srv'' ''a'' Directory),
                           (''z'', demo_entry ''/srv'' ''z'' Directory)] \<rparr>"

text \<open>The same tree a moment later: \<^verbatim>\<open>/srv/z\<close> is gone and a script \<^verbatim>\<open>/srv/c.js\<close> has
  appeared.\<close>

definition demo_fs_later :: filesystem where
  "demo_fs_later =
     \<lparr> readdirSync = (\<lambda>dir.
         if dir = ''/srv'' then [''b.js'', ''c.js'', ''a.js'', ''a'', ''.env.js'', ''notes.txt'']
         else if dir = ''/srv/a'' then [''x.js'', ''deep'']
         else []),
       statSync = map_of
         [(''/srv'', Directory),
          (''/srv/b.js'', File), (''/srv/c.js'', File), (''/srv/a.js'', File),
          (''/srv/a'', Directory), (''/srv/.env.js'', File), (''/srv/notes.txt'', File),
          (''/srv/a/x.js'', File), (''/srv/a/deep'', Directory)] \<rparr>"

section \<open>Concrete handlers and a concrete schedule\<close>

text \<open>Handler 1 returns, handler 2 throws, handler 3 returns a promise that is later
  fulfilled, handler 4 one that is later rejected; any other handler returns.\<close>

definition demo_behaviour :: behaviours where
  "demo_behaviour h as =
     (if h = Handler 2 then Throws (Thrown ''boom'')
      else if h = Handler 3 then Resolves
      else if h = Handler 4 then Rejects (Thrown ''late'')
      else Returns)"

definition demo_args :: "arg list" where
  "demo_args = [Str ''/srv/a.js'', Mod (Exports 1 Absent)]"

text \<open>Three observers of \<^verbatim>\<open>load\<close> are registered, then \<^verbatim>\<open>load\<close>, an event name that the
  registry does not know, and \<^verbatim>\<open>unload\<close> are notified, and the first batch is run.\<close>

definition demo_calls :: "step list" where
  "demo_calls =
     [On ''load'' (Handler 1), On ''load'' (Handler 2), On ''load'' (Handler 3),
      On ''unload'' (Handler 5),
      Notify (Named ''load'') demo_args, Notify (Named ''reload'') [],
      Notify (Named ''unload'') demo_args]"

definition demo_schedule :: "step list" where
  "demo_schedule = demo_calls @ [RunBatch 0]"

text \<open>The state after the calls, and the state after the first batch has been run.\<close>

definition demo_released :: RunDir where
  "demo_released =
     new_RunDir\<lparr>
       queue := [0, 1, 2],
       handlers := [(''load'', [Handler 1, Handler 2, Handler 3]), (''unload'', [Handler 5])],
       batches := [\<lparr>batch_event = Named ''load'', batch_args = demo_args, phase = Released,
                     pending = []\<rparr>,
                   \<lparr>batch_event = Named ''reload'', batch_args = [], phase = Waiting, pending = []\<rparr>,
                   \<lparr>batch_event = Named ''unload'', batch_args = demo_args, phase = Waiting,
                     pending = []\<rparr>]\<rparr>"

definition demo_running :: RunDir where
  "demo_running =
     new_RunDir\<lparr>
       queue := [0, 1, 2],
       handlers := [(''load'', [Handler 1, Handler 2, Handler 3]), (''unload'', [Handler 5])],
       batches := [\<lparr>batch_event = Named ''load'', batch_args = demo_args, phase = Running,
                     pending = [Handler 3]\<rparr>,
                   \<lparr>batch_event = Named ''reload'', batch_args = [], phase = Waiting, pending = []\<rparr>,
                   \<lparr>batch_event = Named ''unload'', batch_args = demo_args, phase = Waiting,
                     pending = []\<rparr>],
       history := [Began 0, Invoked 0 (Handler 1) demo_args, Invoked 0 (Handler 2) demo_args,
                   Invoked 0 (Handler 3) demo_args],
       console := [Thrown ''boom'']\<rparr>"

text \<open>The state after the pending promise of the first batch has settled and its second
  callback has run: the unknown event is next.\<close>

definition demo_next :: RunDir where
  "demo_next =
     new_RunDir\<lparr>
       queue := [1, 2],
       handlers := [(''load'', [Handler 1, Handler 2, Handler 3]), (''unload'', [Handler 5])],
       batches := [\<lparr>batch_event = Named ''load'', batch_args = demo_args, phase = Done,
                     pending = []\<rparr>,
                   \<lparr>batch_event = Named ''reload'', batch_args = [], phase = Released, pending = []\<rparr>,
                   \<lparr>batch_event = Named ''unload'', batch_args = demo_args, phase = Waiting,
                     pending = []\<rparr>],
       history := [Began 0, Invoked 0 (Handler 1) demo_args, Invoked 0 (Handler 2) demo_args,
                   Invoked 0 (Handler 3) demo_args, Completed 0],
       console := [Thrown ''boom'']\<rparr>"

section \<open>A concrete loader and nested targets\<close>

text \<open>\<^verbatim>\<open>/srv/b.js\<close> has a syntax error; every other script loads and exports an object
  without hooks.\<close>

definition demo_loader :: loader where
  "demo_loader p =
     (if p = ''/srv/b.js'' then Inl (Thrown ''SyntaxError'') else Inr (Exports (length p) Absent))"

text \<open>The engine after \<^verbatim>\<open>add('/srv')\<close> and \<^verbatim>\<open>add('/srv/a')\<close>: a target and a directory
  inside it that is a target of its own.\<close>

definition demo_nested :: RunDir where
  "demo_nested =
     new_RunDir\<lparr>
       targets := [''/srv'', ''/srv/a''],
       watchers := [(''/srv'', new_RunWatcher ''/srv'' True),
                    (''/srv/a'', new_RunWatcher ''/srv/a'' True)]\<rparr>"

text \<open>The watcher of \<^verbatim>\<open>/srv/a\<close> that the adder creates, after its scan.\<close>

definition demo_sub :: RunWatcher where
  "demo_sub =
     \<lparr> path = ''/srv/a'', files = [(''x.js'', demo_entry ''/srv/a'' ''x.js'' File)],
       watcher = Some (FSWatcher ''/srv/a/.''), directories = None \<rparr>"




section \<open>Facts about the watcher\<close>

lemma and_then_None [simp]:
  "and_then (w, tr, None) f = (case f w of (w', tr', x) \<Rightarrow> (w', tr @ tr', x))"
  by (simp add: and_then_def)

lemma and_then_Some [simp]: "and_then (w, tr, Some e) f = (w, tr, Some e)"
  by (simp add: and_then_def)

lemma endsWith_js_not_proto:
  "endsWith k ''.js'' \<or> endsWith k ''.json'' \<Longrightarrow> k \<notin> set object_prototype_keys"
  by (auto simp: endsWith_def object_prototype_keys_def)

lemma js_get_Some [simp]: "map_of obj k = Some v \<Longrightarrow> js_get obj k = Own v"
  by (simp add: js_get_def)

lemma js_get_None_plain:
  "map_of obj k = None \<Longrightarrow> k \<notin> set object_prototype_keys \<Longrightarrow> js_get obj k = Undefined"
  by (simp add: js_get_def)

lemma truthy_js_get:
  "truthy (js_get obj k) = (map_of obj k \<noteq> None \<or> k \<in> set object_prototype_keys)"
  by (auto simp: js_get_def split: option.splits)

lemma wf_new: "wf_watcher rn (new_RunWatcher p b)"
  by (simp add: wf_watcher_def new_RunWatcher_def tracked_directories_def)

lemma list_all_update:
  "list_all P al \<Longrightarrow> P (k, v) \<Longrightarrow> list_all P (AList.update k v al)"
  by (induction al) auto

lemma list_all_delete: "list_all P al \<Longrightarrow> list_all P (AList.delete k al)"
  by (induction al) auto

lemma keys_update_fresh:
  "map_of al k = None \<Longrightarrow> map fst (AList.update k v al) = map fst al @ [k]"
  by (induction al) (auto split: if_splits)

lemma map_of_None_keys: "(map_of al k = None) = (k \<notin> set (map fst al))"
  by (simp add: map_of_eq_None_iff)

lemma delete_absent: "k \<notin> set (map fst al) \<Longrightarrow> AList.delete k al = al"
  by (induction al) auto

lemma keys_delete: "set (map fst (AList.delete k al)) = set (map fst al) - {k}"
  by (induction al) auto

lemma distinct_keys_update: "distinct (map fst al) \<Longrightarrow> distinct (map fst (AList.update k v al))"
  by (simp add: distinct_update)

lemma keys_update: "set (map fst (AList.update k v al)) = insert k (set (map fst al))"
  by (induction al) auto


lemma fileInfo_simps [simp]:
  "info.path (fileInfo p n st) = p" "info.name (fileInfo p n st) = n"
  "isFile (fileInfo p n st) = (st = Some File)"
  "isDirectory (fileInfo p n st) = (st = Some Directory)"
  by (auto simp: fileInfo_def split: option.splits)


lemma set_delete: "set (AList.delete k al) = {p \<in> set al. fst p \<noteq> k}"
  by (induction al) auto

lemma set_update_subset: "set (AList.update k v al) \<subseteq> insert (k, v) (set al)"
  by (induction al) auto

lemma tracked_directories_simps [simp]:
  "tracked_directories (w\<lparr>files := fs\<rparr>) = tracked_directories w"
  "tracked_directories (w\<lparr>watcher := h\<rparr>) = tracked_directories w"
  "tracked_directories (w\<lparr>directories := Some ds\<rparr>) = ds"
  "tracked_directories (w\<lparr>directories := None\<rparr>) = []"
  by (simp_all add: tracked_directories_def)

lemma tracked_directories_Some: "directories w = Some ds \<Longrightarrow> tracked_directories w = ds"
  by (simp add: tracked_directories_def)

lemma tracked_directories_None: "directories w = None \<Longrightarrow> tracked_directories w = []"
  by (simp add: tracked_directories_def)

lemma wf_watcher_unfold:
  "wf_watcher rn w =
     (distinct (map fst (files w)) \<and> distinct (map fst (tracked_directories w))
      \<and> (\<forall>p \<in> set (files w). file_entry_ok rn (RunWatcher.path w) p)
      \<and> (\<forall>p \<in> set (tracked_directories w). directory_entry_ok (RunWatcher.path w) p)
      \<and> fst ` set (files w) \<inter> fst ` set (tracked_directories w) = {}
      \<and> (watcher w = None \<longrightarrow> files w = [] \<and> tracked_directories w = []))"
  by (auto simp: wf_watcher_def list_all_iff)

lemma wf_fileRemoved:
  assumes "wf_watcher rn w" "watcher w \<noteq> None" "fileRemoved x w = (w', tr, e)"
  shows "wf_watcher rn w' \<and> watcher w' \<noteq> None"
proof (cases "name_of x")
  case None
  with assms show ?thesis by (simp add: fileRemoved_def)
next
  case (Some n)
  with assms(3) have w': "w' = w\<lparr>files := AList.delete n (files w)\<rparr>"
    by (simp add: fileRemoved_def)
  from assms(1,2) show ?thesis
    unfolding w' wf_watcher_unfold
    by (auto simp: tracked_directories_Some distinct_delete set_delete)
qed

lemma wf_directoryRemoved:
  assumes "wf_watcher rn w" "watcher w \<noteq> None" "directoryRemoved x w = (w', tr, e)"
  shows "wf_watcher rn w' \<and> watcher w' \<noteq> None"
proof (cases "directories w")
  case None
  with assms show ?thesis by (simp add: directoryRemoved_def)
next
  case ds: (Some ds)
  show ?thesis
  proof (cases "name_of x")
    case None
    with assms ds show ?thesis by (simp add: directoryRemoved_def)
  next
    case (Some n)
    with assms(3) ds have w': "w' = w\<lparr>directories := Some (AList.delete n ds)\<rparr>"
      by (simp add: directoryRemoved_def)
    from assms(1,2) ds show ?thesis
      unfolding w' wf_watcher_unfold
      by (auto simp: tracked_directories_Some distinct_delete set_delete)
  qed
qed

lemma wf_fileAdded:
  assumes "wf_watcher rn w" "watcher w \<noteq> None" "fileAdded rn i w = (w', tr, e)"
    and "info.path i = path_join (RunWatcher.path w) (info.name i)"
    and "isFile i" "\<not> isDirectory i"
    and "info.name i \<notin> fst ` set (tracked_directories w)"
  shows "wf_watcher rn w' \<and> watcher w' \<noteq> None"
proof (cases "checkFile rn w (info.path i) (info.name i)")
  case False
  with assms show ?thesis by (simp add: fileAdded_def)
next
  case True
  with assms(3) have w': "w' = w\<lparr>files := AList.update (info.name i) i (files w)\<rparr>"
    by (simp add: fileAdded_def)
  have ok: "file_entry_ok rn (RunWatcher.path w) (info.name i, i)"
    using True assms(4,5,6) by (simp add: file_entry_ok_def checkFile_def)
  have sub: "set (AList.update (info.name i) i (files w)) \<subseteq> insert (info.name i, i) (set (files w))"
    by (rule set_update_subset)
  from assms(1,2,7) ok sub show ?thesis
    unfolding w' wf_watcher_unfold
    by (auto simp: tracked_directories_Some distinct_update dom_update)
qed

lemma wf_directoryAdded:
  assumes "wf_watcher rn w" "watcher w \<noteq> None" "directoryAdded i w = (w', tr, e)"
    and "info.path i = path_join (RunWatcher.path w) (info.name i)"
    and "isDirectory i" "\<not> isFile i"
    and "info.name i \<notin> fst ` set (files w)"
  shows "wf_watcher rn w' \<and> watcher w' \<noteq> None"
proof (cases "checkDirectory w (info.path i) (info.name i)")
  case False
  with assms show ?thesis by (simp add: directoryAdded_def)
next
  case True
  then obtain ds where ds: "directories w = Some ds"
    by (auto simp: checkDirectory_def split: option.splits)
  with True assms(3) have w': "w' = w\<lparr>directories := Some (AList.update (info.name i) i ds)\<rparr>"
    by (simp add: directoryAdded_def)
  have ok: "directory_entry_ok (RunWatcher.path w) (info.name i, i)"
    using True ds assms(4,5,6)
    by (auto simp: directory_entry_ok_def checkDirectory_def truthy_js_get)
  have sub: "set (AList.update (info.name i) i ds) \<subseteq> insert (info.name i, i) (set ds)"
    by (rule set_update_subset)
  from assms(1,2,7) ok sub ds show ?thesis
    unfolding w' wf_watcher_unfold
    by (auto simp: tracked_directories_Some distinct_update dom_update)
qed


lemma native_callback_phases:
  "native_callback fs rn w ev file =
     and_then (reconcile_remove w file (child_info fs (RunWatcher.path w) file))
       (reconcile_add rn (child_info fs (RunWatcher.path w) file))"
  by (simp only: native_callback_def Let_def)

lemma name_of_js_get_files:
  "name_of (js_get obj k) \<noteq> None \<or> \<not> truthy (js_get obj k)"
  by (simp add: js_get_def split: option.splits)

lemma wf_file_key:
  "wf_watcher rn w \<Longrightarrow> map_of (files w) k = Some old \<Longrightarrow> info.name old = k"
  by (auto simp: wf_watcher_unfold file_entry_ok_def dest!: map_of_SomeD)

lemma wf_directory_key:
  "wf_watcher rn w \<Longrightarrow> directories w = Some ds \<Longrightarrow> map_of ds k = Some old \<Longrightarrow> info.name old = k"
  by (auto simp: wf_watcher_unfold directory_entry_ok_def tracked_directories_Some dest!: map_of_SomeD)

lemma wf_directory_not_file:
  assumes "wf_watcher rn w" "directories w = Some ds" "map_of ds k = Some old"
  shows "js_get (files w) k = Undefined"
proof -
  from assms have kd: "(k, old) \<in> set (tracked_directories w)"
    by (auto simp: tracked_directories_Some dest: map_of_SomeD)
  with assms(1) have "k \<notin> set object_prototype_keys"
    by (auto simp: wf_watcher_unfold directory_entry_ok_def)
  moreover from kd assms(1) have "k \<notin> fst ` set (files w)"
    by (force simp: wf_watcher_unfold)
  then have "map_of (files w) k = None"
    by (simp add: map_of_eq_None_iff)
  ultimately show ?thesis by (simp add: js_get_def)
qed

lemma wf_disjoint:
  "wf_watcher rn w \<Longrightarrow> k \<in> fst ` set (files w) \<Longrightarrow> k \<notin> fst ` set (tracked_directories w)"
  unfolding wf_watcher_unfold by blast

lemma wf_directory_not_proto:
  "wf_watcher rn w \<Longrightarrow> k \<in> set object_prototype_keys \<Longrightarrow> k \<notin> fst ` set (tracked_directories w)"
  unfolding wf_watcher_unfold directory_entry_ok_def by force

lemma reconcile_remove_file:
  "map_of (files w) file = Some old \<Longrightarrow>
   reconcile_remove w file i = fileRemoved (Own old) w"
  by (simp add: reconcile_remove_def)

lemma reconcile_remove_inherited:
  "map_of (files w) file = None \<Longrightarrow> file \<in> set object_prototype_keys \<Longrightarrow>
   reconcile_remove w file i = fileRemoved (Inherited file) w"
  by (simp add: reconcile_remove_def js_get_def)

lemma reconcile_remove_directory:
  "map_of (files w) file = None \<Longrightarrow> file \<notin> set object_prototype_keys \<Longrightarrow>
   directories w = Some ds \<Longrightarrow> map_of ds file = Some old \<Longrightarrow> \<not> isDirectory i \<Longrightarrow>
   reconcile_remove w file i = directoryRemoved (Own old) w"
  by (simp add: reconcile_remove_def js_get_def)

lemma reconcile_remove_nothing:
  "map_of (files w) file = None \<Longrightarrow> file \<notin> set object_prototype_keys \<Longrightarrow>
   (directories w = None \<or> map_of (tracked_directories w) file = None \<or> isDirectory i) \<Longrightarrow>
   reconcile_remove w file i = (w, [], None)"
  by (auto simp: reconcile_remove_def js_get_def tracked_directories_def split: option.splits)

lemma reconcile_remove_wf:
  assumes wf: "wf_watcher rn w" and h: "watcher w \<noteq> None"
    and r: "reconcile_remove w file i = (w1, tr, e)"
  shows "wf_watcher rn w1 \<and> watcher w1 \<noteq> None \<and> e = None \<and> RunWatcher.path w1 = RunWatcher.path w
    \<and> (isFile i \<and> \<not> isDirectory i \<longrightarrow> file \<notin> fst ` set (tracked_directories w1))
    \<and> (isDirectory i \<longrightarrow> file \<notin> fst ` set (files w1))"
proof (cases "map_of (files w) file")
  case (Some old)
  then have n: "info.name old = file" using wf by (rule wf_file_key[rotated])
  from Some r have fr: "fileRemoved (Own old) w = (w1, tr, e)"
    by (simp add: reconcile_remove_file)
  with n have w1: "w1 = w\<lparr>files := AList.delete file (files w)\<rparr>" and e: "e = None"
    by (simp_all add: fileRemoved_def)
  from Some have "file \<in> fst ` set (files w)"
    by (metis map_of_eq_None_iff option.distinct(1))
  with wf have nd: "file \<notin> fst ` set (tracked_directories w)"
    by (rule wf_disjoint)
  have nf: "file \<notin> fst ` set (files w1)"
    unfolding w1 by (simp add: delete_notin_dom)
  from nd have nd1: "file \<notin> fst ` set (tracked_directories w1)"
    unfolding w1 by simp
  have p: "RunWatcher.path w1 = RunWatcher.path w" unfolding w1 by simp
  from wf_fileRemoved[OF wf h fr] e nd1 nf p show ?thesis by blast
next
  case None
  then have nf: "file \<notin> fst ` set (files w)" by (simp add: map_of_eq_None_iff)
  show ?thesis
  proof (cases "file \<in> set object_prototype_keys")
    case True
    with None r have fr: "fileRemoved (Inherited file) w = (w1, tr, e)"
      by (simp add: reconcile_remove_inherited)
    from True wf have nd: "file \<notin> fst ` set (tracked_directories w)"
      by (rule wf_directory_not_proto[rotated])
    from fr obtain n where w1: "w1 = w\<lparr>files := AList.delete n (files w)\<rparr>" and e: "e = None"
      by (auto simp: fileRemoved_def)
    have "fst ` set (files w1) \<subseteq> fst ` set (files w)"
      unfolding w1 by (simp add: dom_delete_subset)
    with nf have nf1: "file \<notin> fst ` set (files w1)" by blast
    from nd have nd1: "file \<notin> fst ` set (tracked_directories w1)"
      unfolding w1 by simp
    have p: "RunWatcher.path w1 = RunWatcher.path w" unfolding w1 by simp
    from wf_fileRemoved[OF wf h fr] e nd1 nf1 p show ?thesis by blast
  next
    case np: False
    show ?thesis
    proof (cases "directories w = None \<or> map_of (tracked_directories w) file = None \<or> isDirectory i")
      case True
      with None np r have eq: "w1 = w" "e = None"
        by (simp_all add: reconcile_remove_nothing)
      from True have "isFile i \<and> \<not> isDirectory i \<longrightarrow> file \<notin> fst ` set (tracked_directories w)"
        by (auto simp: map_of_eq_None_iff tracked_directories_def)
      with eq wf h nf show ?thesis by blast
    next
      case False
      then obtain ds old where ds: "directories w = Some ds"
        and old: "map_of ds file = Some old" and nd: "\<not> isDirectory i"
        by (auto simp: tracked_directories_def)
      then have n: "info.name old = file" using wf by (metis wf_directory_key)
      from None np ds old nd r have dr: "directoryRemoved (Own old) w = (w1, tr, e)"
        by (simp add: reconcile_remove_directory)
      with ds n have w1: "w1 = w\<lparr>directories := Some (AList.delete file ds)\<rparr>" and e: "e = None"
        by (simp_all add: directoryRemoved_def)
      have nd1: "file \<notin> fst ` set (tracked_directories w1)"
        unfolding w1 by (simp add: delete_notin_dom)
      from nf have nf1: "file \<notin> fst ` set (files w1)" unfolding w1 by simp
      have p: "RunWatcher.path w1 = RunWatcher.path w" unfolding w1 by simp
      from wf_directoryRemoved[OF wf h dr] e nd1 nf1 nd p show ?thesis by blast
    qed
  qed
qed

lemma path_fileRemoved: "fileRemoved x w = (w', tr, e) \<Longrightarrow> RunWatcher.path w' = RunWatcher.path w"
  by (auto simp: fileRemoved_def split: option.splits)
lemma path_directoryRemoved: "directoryRemoved x w = (w', tr, e) \<Longrightarrow> RunWatcher.path w' = RunWatcher.path w"
  by (auto simp: directoryRemoved_def split: option.splits)
lemma path_fileAdded: "fileAdded rn x w = (w', tr, e) \<Longrightarrow> RunWatcher.path w' = RunWatcher.path w"
  by (auto simp: fileAdded_def split: if_splits)
lemma path_directoryAdded: "directoryAdded x w = (w', tr, e) \<Longrightarrow> RunWatcher.path w' = RunWatcher.path w"
  by (auto simp: directoryAdded_def split: option.splits if_splits)

lemma fileAdded_no_error: "fileAdded rn i w = (w', tr, e) \<Longrightarrow> e = None"
  by (auto simp: fileAdded_def split: if_splits)

lemma directoryAdded_no_error: "directoryAdded i w = (w', tr, e) \<Longrightarrow> e = None"
  by (auto simp: directoryAdded_def checkDirectory_def split: if_splits option.splits)

lemma reconcile_add_wf:
  assumes wf: "wf_watcher rn w" and h: "watcher w \<noteq> None"
    and a: "reconcile_add rn (fileInfo (path_join (RunWatcher.path w) file) file st) w = (w', tr, e)"
    and "st = Some File \<longrightarrow> file \<notin> fst ` set (tracked_directories w)"
    and "st = Some Directory \<longrightarrow> file \<notin> fst ` set (files w)"
  shows "wf_watcher rn w' \<and> watcher w' \<noteq> None \<and> e = None"
proof -
  let ?i = "fileInfo (path_join (RunWatcher.path w) file) file st"
  consider (f) "st = Some File" | (d) "st = Some Directory" | (o) "st \<noteq> Some File" "st \<noteq> Some Directory"
    by blast
  then show ?thesis
  proof cases
    case f
    with a have fa: "fileAdded rn ?i w = (w', tr, e)" by (simp add: reconcile_add_def)
    from wf_fileAdded[OF wf h fa] fileAdded_no_error[OF fa] f assms(4) show ?thesis by simp
  next
    case d
    with a have da: "directoryAdded ?i w = (w', tr, e)" by (simp add: reconcile_add_def)
    from wf_directoryAdded[OF wf h da] directoryAdded_no_error[OF da] d assms(5) show ?thesis by simp
  next
    case o
    with a wf h show ?thesis by (simp add: reconcile_add_def)
  qed
qed

lemma wf_native_callback:
  assumes wf: "wf_watcher rn w" and h: "watcher w \<noteq> None"
    and r: "native_callback fs rn w ev file = (w', tr, e)"
  shows "wf_watcher rn w' \<and> watcher w' \<noteq> None \<and> e = None"
proof -
  let ?st = "statSync fs (path_join (RunWatcher.path w) file)"
  let ?i = "fileInfo (path_join (RunWatcher.path w) file) file ?st"
  obtain w1 tr1 e1 where rp: "reconcile_remove w file ?i = (w1, tr1, e1)"
    by (metis prod_cases3)
  note R = reconcile_remove_wf[OF wf h rp]
  obtain w2 tr2 e2 where ap: "reconcile_add rn ?i w1 = (w2, tr2, e2)"
    by (metis prod_cases3)
  from R have p: "RunWatcher.path w1 = RunWatcher.path w" by simp
  from ap p have ap': "reconcile_add rn (fileInfo (path_join (RunWatcher.path w1) file) file ?st) w1 = (w2, tr2, e2)"
    by simp
  have A: "wf_watcher rn w2 \<and> watcher w2 \<noteq> None \<and> e2 = None"
    using R by (intro reconcile_add_wf[OF _ _ ap']) auto
  from r rp ap R have "w' = w2" "e = e2"
    by (simp_all add: native_callback_phases child_info_def)
  with A show ?thesis by simp
qed

lemma js_get_update_other:
  "k \<noteq> n \<Longrightarrow> js_get (AList.update n v al) k = js_get al k"
  by (simp add: js_get_def update_conv')

lemma js_get_append_other:
  "k \<notin> fst ` set bl \<Longrightarrow> js_get (al @ bl) k = js_get al k"
proof -
  assume "k \<notin> fst ` set bl"
  then have "map_of bl k = None" by (simp add: map_of_eq_None_iff)
  then have "map_of (al @ bl) k = map_of al k"
    by (simp add: map_add_def split: option.splits)
  then show ?thesis by (simp add: js_get_def)
qed

lemma checkFile_files_cong:
  "js_get (files w') n = js_get (files w) n \<Longrightarrow> checkFile rn w' p n = checkFile rn w p n"
  by (simp add: checkFile_def)

lemma update_fresh_append:
  "map_of al k = None \<Longrightarrow> AList.update k v al = al @ [(k, v)]"
  by (induction al) (auto split: if_splits)

lemma checkFile_fresh: "checkFile rn w p n \<Longrightarrow> map_of (files w) n = None"
  by (auto simp: checkFile_def truthy_js_get)

lemma checkDirectory_fresh:
  "checkDirectory w p n \<Longrightarrow> \<exists>ds. directories w = Some ds \<and> map_of ds n = None"
  by (auto simp: checkDirectory_def truthy_js_get split: option.splits)

lemma eligible_file_cong:
  assumes "\<And>i. i \<in> set is \<Longrightarrow> js_get (files w') (info.name i) = js_get (files w) (info.name i)"
  shows "filter (eligible_file rn w') is = filter (eligible_file rn w) is"
  using assms by (intro filter_cong) (auto simp: eligible_file_def checkFile_def)

lemma add_files_eq:
  "distinct (map info.name is) \<Longrightarrow>
   add_files rn is w =
     (w\<lparr>files := files w @ map (\<lambda>i. (info.name i, i)) (filter (eligible_file rn w) is)\<rparr>,
      map Added (filter (eligible_file rn w) is), None)"
proof (induction "is" arbitrary: w)
  case Nil
  show ?case by simp
next
  case (Cons i "is")
  from Cons.prems have d: "distinct (map info.name is)" and ni: "info.name i \<notin> info.name ` set is"
    by auto
  show ?case
  proof (cases "eligible_file rn w i")
    case False
    then have "(if isFile i then fileAdded rn i w else (w, [], None)) = (w, [], None)"
      by (auto simp: eligible_file_def fileAdded_def)
    with False Cons.IH[OF d, of w] show ?thesis by simp
  next
    case True
    let ?w1 = "w\<lparr>files := files w @ [(info.name i, i)]\<rparr>"
    from True have fresh: "map_of (files w) (info.name i) = None"
      by (auto simp: eligible_file_def dest: checkFile_fresh)
    with True have step: "(if isFile i then fileAdded rn i w else (w, [], None)) = (?w1, [Added i], None)"
      by (simp add: eligible_file_def fileAdded_def update_fresh_append)
    have same: "filter (eligible_file rn ?w1) is = filter (eligible_file rn w) is"
    proof (rule eligible_file_cong)
      fix j assume "j \<in> set is"
      with ni have "info.name j \<noteq> info.name i" by (metis imageI)
      then show "js_get (files ?w1) (info.name j) = js_get (files w) (info.name j)"
        by (simp add: js_get_append_other)
    qed
    from step True Cons.IH[OF d, of ?w1] same show ?thesis by simp
  qed
qed

lemma eligible_directory_cong:
  assumes "directories w = Some ds" "directories w' = Some ds'"
    and "\<And>i. i \<in> set is \<Longrightarrow> js_get ds' (info.name i) = js_get ds (info.name i)"
  shows "filter (eligible_directory w') is = filter (eligible_directory w) is"
  using assms by (intro filter_cong) (auto simp: eligible_directory_def checkDirectory_def)

lemma add_directories_None:
  "directories w = None \<Longrightarrow> add_directories is w = (w, [], None)"
  by (induction "is") (auto simp: directoryAdded_def checkDirectory_def)

lemma eligible_directory_None:
  "directories w = None \<Longrightarrow> filter (eligible_directory w) is = []"
  by (induction "is") (auto simp: eligible_directory_def checkDirectory_def)

lemma add_directories_Some:
  "distinct (map info.name is) \<Longrightarrow> directories w = Some ds \<Longrightarrow>
   add_directories is w =
     (w\<lparr>directories := Some (ds @ map (\<lambda>i. (info.name i, i)) (filter (eligible_directory w) is))\<rparr>,
      map Added (filter (eligible_directory w) is), None)"
proof (induction "is" arbitrary: w ds)
  case Nil
  then show ?case by simp
next
  case (Cons i "is")
  from Cons.prems have d: "distinct (map info.name is)" and ni: "info.name i \<notin> info.name ` set is"
    by auto
  note ds = Cons.prems(2)
  show ?case
  proof (cases "eligible_directory w i")
    case False
    then have "(if isDirectory i then directoryAdded i w else (w, [], None)) = (w, [], None)"
      by (auto simp: eligible_directory_def directoryAdded_def)
    with False Cons.IH[OF d ds] show ?thesis by simp
  next
    case True
    let ?w1 = "w\<lparr>directories := Some (ds @ [(info.name i, i)])\<rparr>"
    from True ds have fresh: "map_of ds (info.name i) = None"
      by (auto simp: eligible_directory_def dest: checkDirectory_fresh)
    with True ds have step:
      "(if isDirectory i then directoryAdded i w else (w, [], None)) = (?w1, [Added i], None)"
      by (simp add: eligible_directory_def directoryAdded_def update_fresh_append)
    have ds1: "directories ?w1 = Some (ds @ [(info.name i, i)])" by simp
    have same: "filter (eligible_directory ?w1) is = filter (eligible_directory w) is"
    proof (rule eligible_directory_cong[OF ds ds1])
      fix j assume "j \<in> set is"
      with ni have "info.name j \<noteq> info.name i" by (metis imageI)
      then show "js_get (ds @ [(info.name i, i)]) (info.name j) = js_get ds (info.name j)"
        by (simp add: js_get_append_other)
    qed
    from step True Cons.IH[OF d ds1] same show ?thesis by simp
  qed
qed

lemma scan_infos_names: "map info.name (scan_infos fs dir) = sort (readdirSync fs dir)"
  by (simp add: scan_infos_def comp_def child_info_def)


lemma eligible_file_watcher [simp]:
  "eligible_file rn (w\<lparr>watcher := h\<rparr>) = eligible_file rn w"
  by (rule ext) (simp add: eligible_file_def checkFile_def)

lemma eligible_directory_frame [simp]:
  "eligible_directory (w\<lparr>watcher := h\<rparr>) = eligible_directory w"
  "eligible_directory (w\<lparr>files := fl\<rparr>) = eligible_directory w"
  by (rule ext, simp add: eligible_directory_def checkDirectory_def)+

lemma distinct_scan_infos:
  "distinct (readdirSync fs dir) \<Longrightarrow> distinct (map info.name (scan_infos fs dir))"
  by (simp add: scan_infos_names)

lemma watch_eq:
  assumes nw: "watcher w = None" and d: "distinct (readdirSync fs (RunWatcher.path w))"
  shows "watch fs rn w =
     (w\<lparr>watcher := Some (FSWatcher (RunWatcher.path w @ ''/.'')),
        files := files w @ map (\<lambda>i. (info.name i, i)) (scanned_files fs rn w),
        directories := (case directories w of None \<Rightarrow> None
           | Some ds \<Rightarrow> Some (ds @ map (\<lambda>i. (info.name i, i)) (scanned_directories fs w)))\<rparr>,
      InstallHandle # map Added (scanned_files fs rn w) @ map Added (scanned_directories fs w),
      None)"
proof -
  let ?is = "scan_infos fs (RunWatcher.path w)"
  let ?w1 = "w\<lparr>watcher := Some (FSWatcher (RunWatcher.path w @ ''/.''))\<rparr>"
  let ?w2 = "?w1\<lparr>files := files ?w1 @ map (\<lambda>i. (info.name i, i)) (filter (eligible_file rn ?w1) ?is)\<rparr>"
  have dn: "distinct (map info.name ?is)" using d by (rule distinct_scan_infos)
  have af: "add_files rn ?is ?w1 = (?w2, map Added (filter (eligible_file rn ?w1) ?is), None)"
    using dn by (rule add_files_eq)
  show ?thesis
  proof (cases "directories w")
    case None
    then have "directories ?w2 = None" by simp
    then have ad: "add_directories ?is ?w2 = (?w2, [], None)" by (rule add_directories_None)
    from None have "scanned_directories fs w = []"
      by (simp add: scanned_directories_def eligible_directory_None)
    with nw af ad None show ?thesis
      by (simp add: watch_def scanned_files_def)
  next
    case (Some ds)
    then have ds2: "directories ?w2 = Some ds" by simp
    have ad: "add_directories ?is ?w2 =
       (?w2\<lparr>directories := Some (ds @ map (\<lambda>i. (info.name i, i)) (filter (eligible_directory ?w2) ?is))\<rparr>,
        map Added (filter (eligible_directory ?w2) ?is), None)"
      using dn ds2 by (rule add_directories_Some)
    with nw af Some show ?thesis
      by (simp add: watch_def scanned_files_def scanned_directories_def)
  qed
qed

lemma delete_filter: "AList.delete k al = filter (\<lambda>p. fst p \<noteq> k) al"
  by (induction al) auto

lemma js_get_delete_other: "k' \<noteq> k \<Longrightarrow> js_get (AList.delete k al) k' = js_get al k'"
  by (simp add: js_get_def)

lemma remove_files_eq:
  assumes "distinct ks"
    and "\<And>k. k \<in> set ks \<Longrightarrow> \<exists>e. map_of (files w) k = Some e \<and> info.name e = k"
  shows "remove_files ks w =
     (w\<lparr>files := filter (\<lambda>p. fst p \<notin> set ks) (files w)\<rparr>,
      map (\<lambda>k. Removed (js_get (files w) k)) ks, None)"
  using assms
proof (induction ks arbitrary: w)
  case Nil
  show ?case by simp
next
  case (Cons k ks)
  from Cons.prems(2)[of k] obtain e where e: "map_of (files w) k = Some e" "info.name e = k"
    by auto
  let ?w1 = "w\<lparr>files := AList.delete k (files w)\<rparr>"
  from e have step: "fileRemoved (js_get (files w) k) w = (?w1, [Removed (js_get (files w) k)], None)"
    by (simp add: fileRemoved_def)
  from Cons.prems(1) have dk: "distinct ks" and nk: "k \<notin> set ks" by auto
  have pre: "\<exists>e. map_of (files ?w1) k' = Some e \<and> info.name e = k'" if "k' \<in> set ks" for k'
  proof -
    from that nk have "k' \<noteq> k" by auto
    with Cons.prems(2)[of k'] that show ?thesis by simp
  qed
  have same: "map (\<lambda>k'. Removed (js_get (files ?w1) k')) ks = map (\<lambda>k'. Removed (js_get (files w) k')) ks"
  proof (rule map_cong[OF refl])
    fix k' assume "k' \<in> set ks"
    with nk have "k' \<noteq> k" by auto
    then show "Removed (js_get (files ?w1) k') = Removed (js_get (files w) k')"
      by (simp add: js_get_delete_other)
  qed
  have fl: "filter (\<lambda>p. fst p \<notin> set ks) (AList.delete k (files w)) = filter (\<lambda>p. fst p \<notin> set (k # ks)) (files w)"
    by (simp add: delete_filter conj_commute)
  from Cons.IH[OF dk pre] step same fl show ?case by simp
qed

lemma remove_directories_eq:
  assumes "distinct ks" "directories w = Some ds"
    and "\<And>k. k \<in> set ks \<Longrightarrow> \<exists>e. map_of ds k = Some e \<and> info.name e = k"
  shows "remove_directories ks w =
     (w\<lparr>directories := Some (filter (\<lambda>p. fst p \<notin> set ks) ds)\<rparr>,
      map (\<lambda>k. Removed (js_get ds k)) ks, None)"
  using assms
proof (induction ks arbitrary: w ds)
  case Nil
  then show ?case by simp
next
  case (Cons k ks)
  note ds = Cons.prems(2)
  from Cons.prems(3)[of k] obtain e where e: "map_of ds k = Some e" "info.name e = k"
    by auto
  let ?w1 = "w\<lparr>directories := Some (AList.delete k ds)\<rparr>"
  from e ds have step: "(case directories w of None \<Rightarrow> (w, [], Some TypeError)
               | Some m \<Rightarrow> directoryRemoved (js_get m k) w) = (?w1, [Removed (js_get ds k)], None)"
    by (simp add: directoryRemoved_def)
  from Cons.prems(1) have dk: "distinct ks" and nk: "k \<notin> set ks" by auto
  have ds1: "directories ?w1 = Some (AList.delete k ds)" by simp
  have pre: "\<exists>e. map_of (AList.delete k ds) k' = Some e \<and> info.name e = k'" if "k' \<in> set ks" for k'
  proof -
    from that nk have "k' \<noteq> k" by auto
    with Cons.prems(3)[of k'] that show ?thesis by simp
  qed
  have same: "map (\<lambda>k'. Removed (js_get (AList.delete k ds) k')) ks = map (\<lambda>k'. Removed (js_get ds k')) ks"
  proof (rule map_cong[OF refl])
    fix k' assume "k' \<in> set ks"
    with nk have "k' \<noteq> k" by auto
    then show "Removed (js_get (AList.delete k ds) k') = Removed (js_get ds k')"
      by (simp add: js_get_delete_other)
  qed
  have fl: "filter (\<lambda>p. fst p \<notin> set ks) (AList.delete k ds) = filter (\<lambda>p. fst p \<notin> set (k # ks)) ds"
    by (simp add: delete_filter conj_commute)
  from Cons.IH[OF dk ds1 pre] step same fl show ?case by simp
qed

lemma keys_insort_key:
  "map fst (insort_key fst p xs) = insort (fst p) (map fst xs)"
  by (induction xs) auto

lemma keys_sort_key: "map fst (sort_key fst al) = sort (map fst al)"
  by (induction al) (simp_all add: keys_insort_key)

lemma lookup_own_keys:
  "distinct (map fst xs) \<Longrightarrow> map (\<lambda>k. js_get xs k) (map fst xs) = map (\<lambda>p. Own (snd p)) xs"
proof -
  assume d: "distinct (map fst xs)"
  have "js_get xs (fst p) = Own (snd p)" if "p \<in> set xs" for p
  proof -
    from that d have "map_of xs (fst p) = Some (snd p)"
      by (metis map_of_is_SomeI prod.collapse)
    then show ?thesis by simp
  qed
  then show ?thesis by (simp add: comp_def)
qed

lemma js_get_sort_key:
  assumes "distinct (map fst al)"
  shows "js_get (sort_key fst al) = js_get al"
proof -
  have "distinct (map fst (sort_key fst al))" using assms by (simp add: keys_sort_key)
  moreover have "set (sort_key fst al) = set al" by simp
  ultimately have "map_of (sort_key fst al) = map_of al"
    using assms by (simp add: map_of_inject_set)
  then show ?thesis by (simp add: js_get_def fun_eq_iff)
qed

lemma removed_descending:
  assumes "distinct (map fst al)"
  shows "map (\<lambda>k. Removed (js_get al k)) (rev (sort (map fst al)))
         = map (\<lambda>i. Removed (Own i)) (entries_descending al)"
proof -
  let ?sl = "sort_key fst al"
  have d: "distinct (map fst ?sl)" using assms by (simp add: keys_sort_key)
  have "map (\<lambda>k. js_get al k) (sort (map fst al)) = map (\<lambda>k. js_get ?sl k) (map fst ?sl)"
    using assms by (simp add: js_get_sort_key keys_sort_key)
  also have "\<dots> = map (\<lambda>p. Own (snd p)) ?sl" using d by (rule lookup_own_keys)
  finally have "map (\<lambda>k. js_get al k) (sort (map fst al)) = map (\<lambda>p. Own (snd p)) ?sl" .
  then have "rev (map Removed (map (\<lambda>k. js_get al k) (sort (map fst al))))
      = rev (map Removed (map (\<lambda>p. Own (snd p)) ?sl))"
    by simp
  then show ?thesis by (simp add: entries_descending_def rev_map comp_def)
qed

lemma wf_files_tracked:
  assumes "wf_watcher rn w" "k \<in> set (map fst (files w))"
  shows "\<exists>e. map_of (files w) k = Some e \<and> info.name e = k"
proof -
  from assms(2) obtain e where "map_of (files w) k = Some e"
    by (metis map_of_eq_None_iff not_None_eq set_map)
  with assms(1) show ?thesis by (auto dest: wf_file_key)
qed

lemma wf_directories_tracked:
  assumes "wf_watcher rn w" "directories w = Some ds" "k \<in> set (map fst ds)"
  shows "\<exists>e. map_of ds k = Some e \<and> info.name e = k"
proof -
  from assms(3) obtain e where "map_of ds k = Some e"
    by (metis map_of_eq_None_iff not_None_eq set_map)
  with assms(1,2) show ?thesis by (auto dest: wf_directory_key)
qed

lemma filter_all_keys: "filter (\<lambda>p. fst p \<notin> set (rev (sort (map fst al)))) al = []"
  by (simp add: filter_empty_conv)

lemma stop_eq:
  assumes wf: "wf_watcher rn w" and h: "watcher w = Some hdl"
  shows "stop w =
     (w\<lparr>watcher := None, files := [],
        directories := (case directories w of None \<Rightarrow> None | Some ds \<Rightarrow> Some [])\<rparr>,
      CloseHandle # map (\<lambda>i. Removed (Own i)) (entries_descending (tracked_directories w))
        @ map (\<lambda>i. Removed (Own i)) (entries_descending (files w)),
      None)"
proof -
  let ?w1 = "w\<lparr>watcher := None\<rparr>"
  let ?fk = "rev (sort (map fst (files w)))"
  have dfk: "distinct ?fk" using wf by (simp add: wf_watcher_unfold)
  have df: "distinct (map fst (files w))" using wf by (simp add: wf_watcher_unfold)
  show ?thesis
  proof (cases "directories w")
    case None
    have pre: "\<exists>e. map_of (files ?w1) k = Some e \<and> info.name e = k" if "k \<in> set ?fk" for k
      using wf_files_tracked[OF wf, of k] that by simp
    have rf: "remove_files ?fk ?w1 =
       (?w1\<lparr>files := filter (\<lambda>p. fst p \<notin> set ?fk) (files ?w1)\<rparr>,
        map (\<lambda>k. Removed (js_get (files ?w1) k)) ?fk, None)"
      using dfk pre by (rule remove_files_eq)
    from None h rf show ?thesis
      by (simp add: stop_def filter_all_keys removed_descending[OF df]
          tracked_directories_None entries_descending_def)
  next
    case (Some ds)
    let ?dk = "rev (sort (map fst ds))"
    have dd: "distinct (map fst ds)" using wf Some
      by (simp add: wf_watcher_unfold tracked_directories_Some)
    then have ddk: "distinct ?dk" by simp
    have ds1: "directories ?w1 = Some ds" using Some by simp
    have pred: "\<exists>e. map_of ds k = Some e \<and> info.name e = k" if "k \<in> set ?dk" for k
      using wf_directories_tracked[OF wf Some, of k] that by simp
    have rd: "remove_directories ?dk ?w1 =
       (?w1\<lparr>directories := Some (filter (\<lambda>p. fst p \<notin> set ?dk) ds)\<rparr>,
        map (\<lambda>k. Removed (js_get ds k)) ?dk, None)"
      using ddk ds1 pred by (rule remove_directories_eq)
    let ?w2 = "?w1\<lparr>directories := Some []\<rparr>"
    have pre: "\<exists>e. map_of (files ?w2) k = Some e \<and> info.name e = k" if "k \<in> set ?fk" for k
      using wf_files_tracked[OF wf, of k] that by simp
    have rf: "remove_files ?fk ?w2 =
       (?w2\<lparr>files := filter (\<lambda>p. fst p \<notin> set ?fk) (files ?w2)\<rparr>,
        map (\<lambda>k. Removed (js_get (files ?w2) k)) ?fk, None)"
      using dfk pre by (rule remove_files_eq)
    from Some h rd rf show ?thesis
      by (simp add: stop_def filter_all_keys removed_descending[OF df] removed_descending[OF dd]
          tracked_directories_Some)
  qed
qed

lemma wf_stop:
  assumes "wf_watcher rn w" "stop w = (w', tr, e)"
  shows "wf_watcher rn w'"
proof (cases "watcher w")
  case None
  with assms show ?thesis by (simp add: stop_def)
next
  case (Some hdl)
  from stop_eq[OF assms(1) Some] assms(2) show ?thesis
    by (auto simp: wf_watcher_def tracked_directories_def split: option.splits)
qed

lemma file_step_shape:
  "\<exists>w1 tr1. (if isFile i then fileAdded rn i w else (w, [], None)) = (w1, tr1, None)
     \<and> watcher w1 = watcher w \<and> RunWatcher.path w1 = RunWatcher.path w \<and> list_all is_Added tr1
     \<and> directories w1 = directories w"
  by (simp add: fileAdded_def)

lemma directory_step_shape:
  "\<exists>w1 tr1. (if isDirectory i then directoryAdded i w else (w, [], None)) = (w1, tr1, None)
     \<and> watcher w1 = watcher w \<and> RunWatcher.path w1 = RunWatcher.path w \<and> list_all is_Added tr1"
  by (auto simp: directoryAdded_def checkDirectory_def split: option.splits)

lemma add_files_shape:
  "add_files rn is w = (w', tr, e) \<Longrightarrow>
     e = None \<and> list_all is_Added tr \<and> watcher w' = watcher w \<and> RunWatcher.path w' = RunWatcher.path w
     \<and> directories w' = directories w"
proof (induction "is" arbitrary: w w' tr e)
  case Nil
  then show ?case by simp
next
  case (Cons i "is")
  obtain w1 tr1 where s: "(if isFile i then fileAdded rn i w else (w, [], None)) = (w1, tr1, None)"
    and p: "watcher w1 = watcher w" "RunWatcher.path w1 = RunWatcher.path w" "list_all is_Added tr1"
      "directories w1 = directories w"
    using file_step_shape[of i rn w] by blast
  obtain w2 tr2 e2 where r: "add_files rn is w1 = (w2, tr2, e2)" by (metis prod_cases3)
  from Cons.prems s r have "w' = w2" "tr = tr1 @ tr2" "e = e2" by simp_all
  with Cons.IH[OF r] p show ?case by simp
qed

lemma add_directories_shape:
  "add_directories is w = (w', tr, e) \<Longrightarrow>
     e = None \<and> list_all is_Added tr \<and> watcher w' = watcher w \<and> RunWatcher.path w' = RunWatcher.path w"
proof (induction "is" arbitrary: w w' tr e)
  case Nil
  then show ?case by simp
next
  case (Cons i "is")
  obtain w1 tr1 where s: "(if isDirectory i then directoryAdded i w else (w, [], None)) = (w1, tr1, None)"
    and p: "watcher w1 = watcher w" "RunWatcher.path w1 = RunWatcher.path w" "list_all is_Added tr1"
    using directory_step_shape[of i w] by blast
  obtain w2 tr2 e2 where r: "add_directories is w1 = (w2, tr2, e2)" by (metis prod_cases3)
  from Cons.prems s r have "w' = w2" "tr = tr1 @ tr2" "e = e2" by simp_all
  with Cons.IH[OF r] p show ?case by simp
qed

lemma watch_shape:
  assumes "watcher w = None"
  shows "\<exists>w' tr. watch fs rn w = (w', InstallHandle # tr, None) \<and> list_all is_Added tr
           \<and> watcher w' = Some (FSWatcher (RunWatcher.path w @ ''/.''))"
proof -
  let ?w1 = "w\<lparr>watcher := Some (FSWatcher (RunWatcher.path w @ ''/.''))\<rparr>"
  let ?is = "scan_infos fs (RunWatcher.path w)"
  obtain w2 tr2 e2 where f: "add_files rn ?is ?w1 = (w2, tr2, e2)" by (metis prod_cases3)
  obtain w3 tr3 e3 where d: "add_directories ?is w2 = (w3, tr3, e3)" by (metis prod_cases3)
  note F = add_files_shape[OF f] and D = add_directories_shape[OF d]
  from assms f d F D have "watch fs rn w = (w3, InstallHandle # (tr2 @ tr3), None)"
    by (simp add: watch_def)
  moreover from F D have "list_all is_Added (tr2 @ tr3)" by simp
  moreover from F D have "watcher w3 = Some (FSWatcher (RunWatcher.path w @ ''/.''))" by simp
  ultimately show ?thesis by blast
qed

lemma sorted_scanned_files: "sorted (map info.name (scanned_files fs rn w))"
  unfolding scanned_files_def
  by (rule sorted_filter) (simp add: scan_infos_names)

lemma sorted_scanned_directories: "sorted (map info.name (scanned_directories fs w))"
  unfolding scanned_directories_def
  by (rule sorted_filter) (simp add: scan_infos_names)

lemma entries_descending_sorted:
  "sorted (map info.name xs) \<Longrightarrow> entries_descending (map (\<lambda>i. (info.name i, i)) xs) = rev xs"
proof -
  assume "sorted (map info.name xs)"
  then have "sorted (map fst (map (\<lambda>i. (info.name i, i)) xs))" by (simp add: comp_def)
  then have "sort_key fst (map (\<lambda>i. (info.name i, i)) xs) = map (\<lambda>i. (info.name i, i)) xs"
    by (rule sort_key_id_if_sorted)
  then show ?thesis by (simp add: entries_descending_def rev_map comp_def)
qed

lemma scan_infos_entry:
  "i \<in> set (scan_infos fs dir) \<Longrightarrow>
     info.path i = path_join dir (info.name i) \<and> \<not> (isFile i \<and> isDirectory i)"
  by (auto simp: scan_infos_def child_info_def)

lemma eligible_file_entry_ok:
  "eligible_file rn w i \<Longrightarrow> i \<in> set (scan_infos fs (RunWatcher.path w)) \<Longrightarrow>
     file_entry_ok rn (RunWatcher.path w) (info.name i, i)"
  by (auto simp: eligible_file_def checkFile_def file_entry_ok_def dest: scan_infos_entry)

lemma eligible_directory_entry_ok:
  "eligible_directory w i \<Longrightarrow> i \<in> set (scan_infos fs (RunWatcher.path w)) \<Longrightarrow>
     directory_entry_ok (RunWatcher.path w) (info.name i, i)"
  by (auto simp: eligible_directory_def checkDirectory_def directory_entry_ok_def truthy_js_get
      dest: scan_infos_entry split: option.splits)

lemma wf_watch:
  assumes wf: "wf_watcher rn w" and nw: "watcher w = None"
    and d: "distinct (readdirSync fs (RunWatcher.path w))"
    and r: "watch fs rn w = (w', tr, e)"
  shows "wf_watcher rn w'"
proof -
  let ?F = "scanned_files fs rn w" and ?D = "scanned_directories fs w"
  let ?is = "scan_infos fs (RunWatcher.path w)"
  from wf nw have empty: "files w = []" "tracked_directories w = []"
    by (simp_all add: wf_watcher_unfold)
  have dn: "distinct (map info.name ?is)" using d by (rule distinct_scan_infos)
  have dF: "distinct (map info.name ?F)" unfolding scanned_files_def
    using dn by (rule distinct_map_filter)
  have dD: "distinct (map info.name ?D)" unfolding scanned_directories_def
    using dn by (rule distinct_map_filter)
  have okF: "file_entry_ok rn (RunWatcher.path w) (info.name i, i)" if "i \<in> set ?F" for i
    using that by (auto simp: scanned_files_def intro: eligible_file_entry_ok)
  have okD: "directory_entry_ok (RunWatcher.path w) (info.name i, i)" if "i \<in> set ?D" for i
    using that by (auto simp: scanned_directories_def intro: eligible_directory_entry_ok)
  have disj: "info.name ` set ?F \<inter> info.name ` set ?D = {}"
  proof (rule ccontr)
    assume "info.name ` set ?F \<inter> info.name ` set ?D \<noteq> {}"
    then obtain i j where i: "i \<in> set ?F" and j: "j \<in> set ?D" and n: "info.name i = info.name j"
      by auto
    from i j have ij: "i \<in> set ?is" "j \<in> set ?is"
      by (simp_all add: scanned_files_def scanned_directories_def)
    with dn n have "i = j" by (meson distinct_map inj_onD)
    with i j have "isFile i \<and> isDirectory i"
      by (simp add: scanned_files_def scanned_directories_def eligible_file_def eligible_directory_def)
    with ij scan_infos_entry show False by blast
  qed
  from watch_eq[OF nw d, of rn] r have w': "w' = w\<lparr>watcher := Some (FSWatcher (RunWatcher.path w @ ''/.'')),
        files := files w @ map (\<lambda>i. (info.name i, i)) ?F,
        directories := (case directories w of None \<Rightarrow> None
           | Some ds \<Rightarrow> Some (ds @ map (\<lambda>i. (info.name i, i)) ?D))\<rparr>"
    by simp
  show ?thesis
  proof (cases "directories w")
    case None
    with empty dF okF show ?thesis
      unfolding w' wf_watcher_unfold
      by (auto simp: tracked_directories_def comp_def)
  next
    case (Some ds)
    with empty have "ds = []" by (simp add: tracked_directories_def)
    with Some empty dF dD okF okD disj show ?thesis
      unfolding w' wf_watcher_unfold
      by (auto simp: tracked_directories_def comp_def image_image)
  qed
qed

lemma reconcile_remove_file_eq:
  assumes "wf_watcher rn w" "map_of (files w) file = Some old"
  shows "reconcile_remove w file i = (w\<lparr>files := AList.delete file (files w)\<rparr>, [Removed (Own old)], None)"
proof -
  from assms have "info.name old = file" by (rule wf_file_key)
  with assms(2) show ?thesis by (simp add: reconcile_remove_file fileRemoved_def)
qed

lemma reconcile_remove_directory_eq:
  assumes "wf_watcher rn w" "directories w = Some ds" "map_of ds file = Some old" "\<not> isDirectory i"
  shows "reconcile_remove w file i = (w\<lparr>directories := Some (AList.delete file ds)\<rparr>, [Removed (Own old)], None)"
proof -
  from assms(1-3) have n: "info.name old = file" by (rule wf_directory_key)
  from assms(1-3) have u: "js_get (files w) file = Undefined" by (rule wf_directory_not_file)
  with assms(2-4) n show ?thesis by (simp add: reconcile_remove_def directoryRemoved_def)
qed


lemma wf_file_entry:
  "wf_watcher rn w \<Longrightarrow> map_of (files w) k = Some old \<Longrightarrow> file_entry_ok rn (RunWatcher.path w) (k, old)"
  by (auto simp: wf_watcher_unfold dest!: map_of_SomeD)

lemma wf_file_not_proto:
  assumes "wf_watcher rn w" "k \<in> set object_prototype_keys"
  shows "map_of (files w) k = None"
proof (rule ccontr)
  assume "map_of (files w) k \<noteq> None"
  then obtain old where o: "map_of (files w) k = Some old" by blast
  from wf_file_entry[OF assms(1) o] have "endsWith k ''.js'' \<or> endsWith k ''.json''"
    by (simp add: file_entry_ok_def)
  from endsWith_js_not_proto[OF this] assms(2) show False by simp
qed

lemma wf_delete_inherited_name:
  assumes "wf_watcher rn w" "name_of (Inherited k) = Some n" "k \<in> set object_prototype_keys"
  shows "AList.delete n (files w) = files w"
proof -
  have "n \<notin> set (map fst (files w))"
  proof
    assume "n \<in> set (map fst (files w))"
    then obtain old where o: "map_of (files w) n = Some old"
      by (metis map_of_None_keys not_Some_eq)
    from wf_file_entry[OF assms(1) o] have e: "endsWith n ''.js'' \<or> endsWith n ''.json''"
      by (simp add: file_entry_ok_def)
    from assms(2) have "n = ''Object'' \<or> n = ''undefined'' \<or> n = k"
      by (auto split: if_splits)
    with e assms(3) endsWith_js_not_proto[OF e] show False
      by (auto simp: endsWith_def)
  qed
  then show ?thesis by (rule delete_absent)
qed

lemma reconcile_remove_inherited_eq:
  assumes "wf_watcher rn w" "file \<in> set object_prototype_keys"
  shows "reconcile_remove w file i = (w, [Removed (Inherited file)], None)"
proof -
  obtain n where n: "name_of (Inherited file) = Some n" by simp
  from wf_delete_inherited_name[OF assms(1) n assms(2)]
  have d: "AList.delete n (files w) = files w" .
  from wf_file_not_proto[OF assms] have "map_of (files w) file = None" .
  from reconcile_remove_inherited[OF this assms(2)]
  have "reconcile_remove w file i = fileRemoved (Inherited file) w" .
  also from n d have "\<dots> = (w, [Removed (Inherited file)], None)"
    by (simp add: fileRemoved_def del: name_of.simps)
  finally show ?thesis .
qed

lemma reconcile_add_inherited:
  assumes "file \<in> set object_prototype_keys" "info.name i = file"
    and "map_of (tracked_directories w) file = None"
  shows "reconcile_add rn i w = (w, [], None)"
proof -
  from assms(1) have "\<not> (endsWith file ''.js'' \<or> endsWith file ''.json'')"
    using endsWith_js_not_proto by blast
  with assms(2) have f: "\<not> checkFile rn w (info.path i) (info.name i)"
    by (simp add: checkFile_def)
  from assms have d: "\<not> checkDirectory w (info.path i) (info.name i)"
    by (auto simp: checkDirectory_def js_get_def tracked_directories_def split: option.splits)
  from f d show ?thesis
    by (simp add: reconcile_add_def fileAdded_def directoryAdded_def)
qed

lemma native_callback_inherited:
  assumes "wf_watcher rn w" "file \<in> set object_prototype_keys"
  shows "native_callback fs rn w event file = (w, [Removed (Inherited file)], None)"
proof -
  let ?i = "child_info fs (RunWatcher.path w) file"
  have n: "info.name ?i = file" by (simp add: child_info_def)
  from wf_directory_not_proto[OF assms]
  have "map_of (tracked_directories w) file = None" by (simp add: map_of_eq_None_iff)
  from reconcile_add_inherited[OF assms(2) n this]
  have a: "reconcile_add rn ?i w = (w, [], None)" .
  from reconcile_remove_inherited_eq[OF assms]
  have r: "reconcile_remove w file ?i = (w, [Removed (Inherited file)], None)" .
  show ?thesis unfolding native_callback_phases r using a by simp
qed

lemma native_callback_untracked:
  assumes "file \<notin> set object_prototype_keys" "map_of (files w) file = None"
    and "map_of (tracked_directories w) file = None
         \<or> isDirectory (child_info fs (RunWatcher.path w) file)"
  shows "native_callback fs rn w event file
           = reconcile_add rn (child_info fs (RunWatcher.path w) file) w"
proof -
  let ?i = "child_info fs (RunWatcher.path w) file"
  from assms(3) have "directories w = None \<or> map_of (tracked_directories w) file = None
      \<or> isDirectory ?i" by blast
  from reconcile_remove_nothing[OF assms(2,1) this]
  have r: "reconcile_remove w file ?i = (w, [], None)" .
  show ?thesis unfolding native_callback_phases r
    by (cases "reconcile_add rn ?i w") simp
qed

lemma names_entries_descending:
  "map fst (rev (sort_key fst al)) = rev (sort (map fst al))"
  by (simp add: rev_map[symmetric] keys_sort_key)

lemma scanned_files_are_files: "list_all isFile (scanned_files fs rn w)"
  by (simp add: scanned_files_def list_all_iff eligible_file_def)

lemma scanned_directories_are_directories: "list_all isDirectory (scanned_directories fs w)"
  by (simp add: scanned_directories_def list_all_iff eligible_directory_def)

lemma wf_not_watching:
  "wf_watcher rn w \<Longrightarrow> watcher w = None \<Longrightarrow>
     files w = [] \<and> (directories w = None \<or> directories w = Some [])"
  by (auto simp: wf_watcher_unfold tracked_directories_def split: option.splits)

lemma watch_then_stop:
  assumes wf: "wf_watcher rn w" and nw: "watcher w = None"
    and d: "distinct (readdirSync fs (RunWatcher.path w))"
  shows "watch fs rn w =
          (w\<lparr>watcher := Some (FSWatcher (RunWatcher.path w @ ''/.'')),
             files := map (\<lambda>i. (info.name i, i)) (scanned_files fs rn w),
             directories := (case directories w of None \<Rightarrow> None
               | Some ds \<Rightarrow> Some (map (\<lambda>i. (info.name i, i)) (scanned_directories fs w)))\<rparr>,
           InstallHandle # map Added (scanned_files fs rn w) @ map Added (scanned_directories fs w),
           None)"
    and "stop (fst (watch fs rn w)) =
          (w, CloseHandle # map (\<lambda>i. Removed (Own i)) (rev (scanned_directories fs w))
                @ map (\<lambda>i. Removed (Own i)) (rev (scanned_files fs rn w)), None)"
proof -
  let ?F = "scanned_files fs rn w" and ?D = "scanned_directories fs w"
  let ?v = "w\<lparr>watcher := Some (FSWatcher (RunWatcher.path w @ ''/.'')),
             files := map (\<lambda>i. (info.name i, i)) ?F,
             directories := (case directories w of None \<Rightarrow> None
               | Some ds \<Rightarrow> Some (map (\<lambda>i. (info.name i, i)) ?D))\<rparr>"
  note E = wf_not_watching[OF wf nw]
  from watch_eq[OF nw d, of rn] E
  show 1: "watch fs rn w = (?v, InstallHandle # map Added ?F @ map Added ?D, None)"
    by auto
  then have wf': "wf_watcher rn ?v" using wf_watch[OF wf nw d] by blast
  have h': "watcher ?v = Some (FSWatcher (RunWatcher.path w @ ''/.''))" by simp
  have td: "entries_descending (tracked_directories ?v) = rev ?D"
  proof (cases "directories w")
    case None
    then have "?D = []" by (simp add: scanned_directories_def eligible_directory_None)
    with None show ?thesis by (simp add: tracked_directories_def entries_descending_def)
  next
    case (Some ds)
    then show ?thesis
      by (simp add: tracked_directories_def entries_descending_sorted sorted_scanned_directories)
  qed
  have tf: "entries_descending (files ?v) = rev ?F"
    by (simp add: entries_descending_sorted sorted_scanned_files)
  have undo: "?v\<lparr>watcher := None, files := [],
        directories := (case directories ?v of None \<Rightarrow> None | Some ds \<Rightarrow> Some [])\<rparr> = w"
    using E nw by (auto split: option.splits)
  from stop_eq[OF wf' h'] td tf undo
  have "stop ?v = (w, CloseHandle # map (\<lambda>i. Removed (Own i)) (rev ?D)
                @ map (\<lambda>i. Removed (Own i)) (rev ?F), None)"
    by simp
  with 1 show "stop (fst (watch fs rn w)) =
          (w, CloseHandle # map (\<lambda>i. Removed (Own i)) (rev ?D)
                @ map (\<lambda>i. Removed (Own i)) (rev ?F), None)"
    by simp
qed

lemma wf_names_descending:
  assumes "wf_watcher rn w"
  shows "map info.name (entries_descending (files w)) = rev (sort (map fst (files w)))"
    and "map info.name (entries_descending (tracked_directories w))
           = rev (sort (map fst (tracked_directories w)))"
proof -
  have nf: "info.name (snd p) = fst p" if "p \<in> set (files w)" for p
    using assms that by (auto simp: wf_watcher_unfold file_entry_ok_def)
  have nd: "info.name (snd p) = fst p" if "p \<in> set (tracked_directories w)" for p
    using assms that by (auto simp: wf_watcher_unfold directory_entry_ok_def)
  have "map (info.name \<circ> snd) (rev (sort_key fst (files w))) = map fst (rev (sort_key fst (files w)))"
    by (rule map_cong[OF refl]) (simp add: nf)
  then show "map info.name (entries_descending (files w)) = rev (sort (map fst (files w)))"
    by (simp add: entries_descending_def names_entries_descending)
  have "map (info.name \<circ> snd) (rev (sort_key fst (tracked_directories w)))
          = map fst (rev (sort_key fst (tracked_directories w)))"
    by (rule map_cong[OF refl]) (simp add: nd)
  then show "map info.name (entries_descending (tracked_directories w))
           = rev (sort (map fst (tracked_directories w)))"
    by (simp add: entries_descending_def names_entries_descending)
qed


section \<open>Facts about the notification queue\<close>

lemma queue_inv_new: "queue_inv new_RunDir 0"
  by (simp add: queue_inv_def new_RunDir_def one_by_one_def)

lemma one_by_one_Suc: "one_by_one (Suc d) = one_by_one d @ [Began d, Completed d]"
  by (simp add: one_by_one_def)

lemma queue_inv_notify:
  assumes "queue_inv st d"
  shows "queue_inv (notify ev as st) d"
proof -
  let ?n = "length (batches st)"
  from assms have d: "d \<le> ?n" and q: "queue st = [d..<?n]" by (simp_all add: queue_inv_def)
  have e: "(queue st = []) = (d = ?n)" using d q by auto
  show ?thesis
  proof (cases "d = ?n")
    case True
    with assms q show ?thesis
      by (auto simp: queue_inv_def notify_def Let_def nth_append)
  next
    case False
    with d have lt: "d < ?n" by simp
    then have "length (queue st @ [?n]) \<noteq> 1" using q by simp
    with assms lt q show ?thesis
      by (auto simp: queue_inv_def notify_def Let_def nth_append)
  qed
qed

lemma queue_inv_on:
  assumes "queue_inv st d"
  shows "queue_inv (fst (on ev h st)) d"
  using assms by (auto simp: on_def queue_inv_def split: jsval.splits)

lemma released_is_head:
  assumes "queue_inv st d" "n < length (batches st)" "phase (batches st ! n) = Released"
  shows "n = d"
proof (rule ccontr)
  assume "n \<noteq> d"
  then consider "n < d" | "d < n" by linarith
  then show False using assms by cases (auto simp: queue_inv_def)
qed

lemma running_is_head:
  assumes "queue_inv st d" "n < length (batches st)" "phase (batches st ! n) = Running"
  shows "n = d"
proof (rule ccontr)
  assume "n \<noteq> d"
  then consider "n < d" | "d < n" by linarith
  then show False using assms by cases (auto simp: queue_inv_def)
qed

lemma filter_marks_invoked [simp]: "filter is_mark (map (\<lambda>h. Invoked n h as) hs) = []"
  by (induction hs) auto

lemma queue_inv_run_batch:
  assumes inv: "queue_inv st d" and r: "run_batch beh n st = Some st'"
  shows "queue_inv st' d"
proof -
  from r have n: "n < length (batches st)" and ph: "phase (batches st ! n) = Released"
    by (auto simp: run_batch_def split: if_splits)
  from inv n ph have nd: "n = d" by (rule released_is_head)
  from r n ph nd inv show ?thesis
    by (auto simp: run_batch_def Let_def queue_inv_def nth_list_update split: jsval.splits)
qed

lemma queue_inv_settle:
  assumes inv: "queue_inv st d" and r: "settle beh n k st = Some st'"
  shows "queue_inv st' d"
proof -
  from r have n: "n < length (batches st)" and ph: "phase (batches st ! n) = Running"
    by (auto simp: settle_def split: if_splits)
  from inv n ph have nd: "n = d" by (rule running_is_head)
  from r n ph nd inv show ?thesis
    by (auto simp: settle_def Let_def queue_inv_def nth_list_update split: behaviour.splits if_splits)
qed

lemma tl_upt: "tl [d..<n] = [Suc d..<n]"
  by (simp add: tl_upt)

lemma queue_inv_finish:
  assumes inv: "queue_inv st d" and r: "finish n st = Some st'"
  shows "queue_inv st' (Suc d)"
proof -
  let ?len = "length (batches st)"
  from r have n: "n < ?len" and ph: "phase (batches st ! n) = Running"
    and pe: "pending (batches st ! n) = []"
    by (auto simp: finish_def split: if_splits)
  from inv n ph have nd: "n = d" by (rule running_is_head)
  from inv have q: "queue st = [d..<?len]" by (simp add: queue_inv_def)
  have tq: "tl (queue st) = [Suc d..<?len]" unfolding q by (simp add: tl_upt)
  from inv nd ph n have marks: "filter is_mark (history st) = one_by_one d @ [Began d]"
    by (simp add: queue_inv_def)
  show ?thesis
  proof (cases "Suc d < ?len")
    case False
    with n nd have len: "?len = Suc d" by simp
    with tq have e: "tl (queue st) = []" by simp
    from r n ph nd e
    have st': "st' = st\<lparr>queue := [],
                 batches := (batches st)[d := (batches st ! d)\<lparr>phase := Done\<rparr>],
                 history := history st @ [Completed d]\<rparr>"
      by (auto simp: finish_def Let_def split: if_splits)
    from inv len marks pe nd ph show ?thesis
      unfolding st'
      by (auto simp: queue_inv_def nth_list_update one_by_one_Suc less_Suc_eq)
  next
    case True
    then have hd: "tl (queue st) = Suc d # [Suc (Suc d)..<?len]"
      unfolding tq by (simp add: upt_conv_Cons)
    from inv True have w: "phase (batches st ! Suc d) = Waiting" by (simp add: queue_inv_def)
    from r n ph nd hd w True
    have st': "st' = st\<lparr>queue := Suc d # [Suc (Suc d)..<?len],
                 batches := ((batches st)[d := (batches st ! d)\<lparr>phase := Done\<rparr>])
                              [Suc d := (batches st ! Suc d)\<lparr>phase := Released\<rparr>],
                 history := history st @ [Completed d]\<rparr>"
      by (auto simp: finish_def Let_def release_def split: if_splits)
    from inv True marks pe nd show ?thesis
      unfolding st'
      by (auto simp: queue_inv_def nth_list_update one_by_one_Suc upt_conv_Cons less_Suc_eq)
  qed
qed

lemma queue_inv_step:
  assumes "queue_inv st d" "take_step beh s st = Some st'"
  shows "\<exists>d'. queue_inv st' d'"
  using assms
  by (cases s) (auto intro: queue_inv_notify queue_inv_on queue_inv_run_batch queue_inv_settle
      queue_inv_finish)

lemma queue_inv_execute:
  assumes "queue_inv st d" "execute beh ss st = Some st'"
  shows "\<exists>d'. queue_inv st' d'"
  using assms
proof (induction ss arbitrary: st d)
  case Nil
  then show ?case by auto
next
  case (Cons s ss)
  from Cons.prems(2) obtain st1 where 1: "take_step beh s st = Some st1"
    and 2: "execute beh ss st1 = Some st'"
    by (auto split: option.splits)
  from queue_inv_step[OF Cons.prems(1) 1] obtain d1 where "queue_inv st1 d1" by blast
  from Cons.IH[OF this 2] show ?case .
qed


lemma at_most_one:
  assumes "\<And>i. i < length xs \<Longrightarrow> i \<noteq> d \<Longrightarrow> \<not> P (xs ! i)"
  shows "length (filter P xs) \<le> 1"
proof -
  have a: "filter P (take d xs) = []"
    using assms by (auto simp: filter_empty_conv in_set_conv_nth)
  have b: "filter P (drop (Suc d) xs) = []"
    using assms by (auto simp: filter_empty_conv in_set_conv_nth)
  have "xs = take d xs @ drop d xs" by simp
  also have "drop d xs = (if d < length xs then [xs ! d] else []) @ drop (Suc d) xs"
    by (simp add: Cons_nth_drop_Suc)
  finally have "filter P xs = filter P (take d xs @ (if d < length xs then [xs ! d] else []) @ drop (Suc d) xs)"
    by simp
  with a b show ?thesis by (simp split: if_splits)
qed

lemma queue_inv_one_under_way:
  assumes "queue_inv st d"
  shows "length (filter under_way (batches st)) \<le> 1"
proof (rule at_most_one[where d = d])
  fix i assume "i < length (batches st)" "i \<noteq> d"
  then consider "i < d" | "d < i" "i < length (batches st)" by linarith
  then show "\<not> under_way (batches st ! i)"
    using assms by cases (auto simp: queue_inv_def under_way_def)
qed

lemma one_by_one_prefix: "d \<le> n \<Longrightarrow> prefix (one_by_one d) (one_by_one n)"
proof (induction n)
  case 0
  then show ?case by simp
next
  case (Suc n)
  show ?case
  proof (cases "d = Suc n")
    case True
    then show ?thesis by simp
  next
    case False
    with Suc.prems have "d \<le> n" by simp
    with Suc.IH show ?thesis by (simp add: one_by_one_Suc)
  qed
qed

lemma queue_inv_marks:
  assumes "queue_inv st d"
  shows "prefix (filter is_mark (history st)) (one_by_one (length (batches st)))"
proof (cases "d < length (batches st)")
  case False
  with assms have "d = length (batches st)" "filter is_mark (history st) = one_by_one d"
    by (auto simp: queue_inv_def)
  then show ?thesis by simp
next
  case True
  then have "prefix (one_by_one (Suc d)) (one_by_one (length (batches st)))"
    by (intro one_by_one_prefix) simp
  then have p: "prefix (one_by_one d @ [Began d, Completed d]) (one_by_one (length (batches st)))"
    by (simp add: one_by_one_Suc)
  have "prefix (one_by_one d @ [Began d]) (one_by_one d @ [Began d, Completed d])" by simp
  from this p have p1: "prefix (one_by_one d @ [Began d]) (one_by_one (length (batches st)))"
    by (rule prefix_order.trans)
  have "prefix (one_by_one d) (one_by_one d @ [Began d])" by simp
  from this p1 have p0: "prefix (one_by_one d) (one_by_one (length (batches st)))"
    by (rule prefix_order.trans)
  from assms have "filter is_mark (history st) = one_by_one d
      \<or> filter is_mark (history st) = one_by_one d @ [Began d]"
    by (auto simp: queue_inv_def)
  with p0 p1 show ?thesis by auto
qed

lemma queue_inv_done_settled:
  assumes "queue_inv st d"
  shows "list_all (\<lambda>b. phase b = Done \<longrightarrow> pending b = []) (batches st)"
proof -
  have "phase (batches st ! i) = Done \<longrightarrow> pending (batches st ! i) = []" if "i < length (batches st)" for i
  proof (cases "i < d")
    case True
    with assms show ?thesis by (simp add: queue_inv_def)
  next
    case False
    then consider "i = d" | "d < i" by linarith
    then show ?thesis using assms that by cases (auto simp: queue_inv_def)
  qed
  then show ?thesis by (auto simp: list_all_iff in_set_conv_nth)
qed


lemma async_settles:
  "is_async b \<Longrightarrow> b \<noteq> Hangs \<Longrightarrow> b = Resolves \<or> (\<exists>e. b = Rejects e)"
  by (cases b) auto

text \<open>Settling the first pending promise again and again empties the list.\<close>

lemma settle_all:
  assumes "n < length (batches s)" "phase (batches s ! n) = Running"
    and "pending (batches s ! n) = ps"
    and "list_all (\<lambda>h. is_async (beh h (batch_args (batches s ! n)))
                      \<and> beh h (batch_args (batches s ! n)) \<noteq> Hangs) ps"
  shows "\<exists>s'. execute beh (replicate (length ps) (Settle n 0)) s = Some s'
           \<and> batches s' = (batches s)[n := (batches s ! n)\<lparr>pending := []\<rparr>]
           \<and> queue s' = queue s \<and> history s' = history s \<and> handlers s' = handlers s"
  using assms
proof (induction ps arbitrary: s)
  case Nil
  then have "(batches s)[n := (batches s ! n)\<lparr>pending := []\<rparr>] = batches s"
    by (simp add: list_update_same_conv)
  then show ?case by simp
next
  case (Cons h ps)
  let ?b = "batches s ! n"
  from Cons.prems(4) have "is_async (beh h (batch_args ?b))" "beh h (batch_args ?b) \<noteq> Hangs"
    by simp_all
  then have hb: "beh h (batch_args ?b) = Resolves \<or> (\<exists>e. beh h (batch_args ?b) = Rejects e)"
    by (rule async_settles)
  from Cons.prems(1-3) hb obtain s1 where s1: "settle beh n 0 s = Some s1"
    and b1: "batches s1 = (batches s)[n := ?b\<lparr>pending := ps\<rparr>]"
    and f1: "queue s1 = queue s" "history s1 = history s" "handlers s1 = handlers s"
    by (auto simp: settle_def Let_def)
  from Cons.prems(1) b1 have n1: "n < length (batches s1)" and bn: "batches s1 ! n = ?b\<lparr>pending := ps\<rparr>"
    by simp_all
  from bn Cons.prems(2) have p1: "phase (batches s1 ! n) = Running" "pending (batches s1 ! n) = ps"
    by simp_all
  from Cons.prems(4) bn have l1: "list_all (\<lambda>h. is_async (beh h (batch_args (batches s1 ! n)))
                      \<and> beh h (batch_args (batches s1 ! n)) \<noteq> Hangs) ps"
    by simp
  from Cons.IH[OF n1 p1 l1] obtain s' where
    e: "execute beh (replicate (length ps) (Settle n 0)) s1 = Some s'"
    and b': "batches s' = (batches s1)[n := (batches s1 ! n)\<lparr>pending := []\<rparr>]"
    and f': "queue s' = queue s1" "history s' = history s1" "handlers s' = handlers s1"
    by blast
  from s1 e have "execute beh (replicate (length (h # ps)) (Settle n 0)) s = Some s'" by simp
  moreover from b' b1 bn have "batches s' = (batches s)[n := ?b\<lparr>pending := []\<rparr>]" by simp
  ultimately show ?case using f' f1 by simp
qed

text \<open>The second callback of the head batch marks it done, shifts the queue and releases the
  next call.\<close>

lemma finish_head:
  assumes inv: "queue_inv s d" and n: "n < length (batches s)"
    and ph: "phase (batches s ! n) = Running" and pe: "pending (batches s ! n) = []"
  shows "\<exists>s'. finish n s = Some s' \<and> queue s' = tl (queue s)
           \<and> history s' = history s @ [Completed n] \<and> handlers s' = handlers s
           \<and> console s' = console s
           \<and> length (batches s') = length (batches s)
           \<and> phase (batches s' ! n) = Done
           \<and> (Suc n < length (batches s) \<longrightarrow>
                 batches s' ! Suc n = (batches s ! Suc n)\<lparr>phase := Released\<rparr>)"
proof -
  from inv n ph have nd: "n = d" by (rule running_is_head)
  from inv have q: "queue s = [d..<length (batches s)]" by (simp add: queue_inv_def)
  have tq: "tl (queue s) = [Suc d..<length (batches s)]" unfolding q by (simp add: tl_upt)
  show ?thesis
  proof (cases "Suc d < length (batches s)")
    case False
    with tq have "tl (queue s) = []" by simp
    with n ph pe nd False show ?thesis
      by (simp add: finish_def Let_def)
  next
    case True
    then have hd: "tl (queue s) = Suc d # [Suc (Suc d)..<length (batches s)]"
      unfolding tq by (simp add: upt_conv_Cons)
    from inv True have w: "phase (batches s ! Suc d) = Waiting" by (simp add: queue_inv_def)
    from n ph pe nd hd w True show ?thesis
      by (simp add: finish_def Let_def release_def)
  qed
qed

lemma execute_append:
  "execute beh (xs @ ys) s = (case execute beh xs s of None \<Rightarrow> None | Some s' \<Rightarrow> execute beh ys s')"
  by (induction xs arbitrary: s) (auto split: option.splits)


lemma run_batch_begins:
  assumes "n < length (batches s)" "phase (batches s ! n) = Released"
  shows "\<exists>s'. run_batch beh n s = Some s' \<and> Began n \<in> set (history s')"
  using assms
  by (cases "resolve_handlers s (batch_event (batches s ! n))")
     (simp_all add: run_batch_def Let_def)

lemma run_batch_handlers:
  assumes "n < length (batches st)" "phase (batches st ! n) = Released"
    and "resolve_handlers st (batch_event (batches st ! n)) = Own hs"
  shows "run_batch beh n st =
     Some (st\<lparr>batches := (batches st)[n := (batches st ! n)\<lparr>phase := Running,
                   pending := filter (\<lambda>h. is_async (beh h (batch_args (batches st ! n)))) hs\<rparr>],
              history := history st @ [Began n]
                 @ map (\<lambda>h. Invoked n h (batch_args (batches st ! n))) hs,
              console := console st
                 @ concat (map (\<lambda>h. thrown (beh h (batch_args (batches st ! n)))) hs)\<rparr>)"
  using assms by (simp add: run_batch_def Let_def)

lemma run_batch_no_handlers:
  assumes "n < length (batches st)" "phase (batches st ! n) = Released"
    and "resolve_handlers st (batch_event (batches st ! n)) = Undefined"
  shows "run_batch beh n st =
     Some (st\<lparr>batches := (batches st)[n := (batches st ! n)\<lparr>phase := Running, pending := []\<rparr>],
              history := history st @ [Began n]\<rparr>)"
  using assms by (simp add: run_batch_def Let_def)

text \<open>Once the first callback of the head batch has run and left the promises \<open>ps\<close> pending,
  none of which hangs, settling them and running the second callback completes the batch and
  releases the next call.\<close>

lemma complete_running_batch:
  assumes inv: "queue_inv s d" and n: "n < length (batches s)"
    and ph: "phase (batches s ! n) = Running"
    and nh: "list_all (\<lambda>h. is_async (beh h (batch_args (batches s ! n)))
                      \<and> beh h (batch_args (batches s ! n)) \<noteq> Hangs) (pending (batches s ! n))"
  shows "\<exists>s2. execute beh (replicate (length (pending (batches s ! n))) (Settle n 0) @ [Finish n]) s
              = Some s2
           \<and> phase (batches s2 ! n) = Done \<and> history s2 = history s @ [Completed n]
           \<and> queue s2 = tl (queue s) \<and> length (batches s2) = length (batches s)
           \<and> (Suc n < length (batches s) \<longrightarrow> phase (batches s2 ! Suc n) = Released
                \<and> (\<exists>s3. run_batch beh (Suc n) s2 = Some s3 \<and> Began (Suc n) \<in> set (history s3)))"
proof -
  let ?ps = "pending (batches s ! n)"
  from settle_all[where beh = beh and s = s and n = n and ps = "pending (batches s ! n)", OF n ph refl nh] obtain s1 where
    e1: "execute beh (replicate (length ?ps) (Settle n 0)) s = Some s1"
    and b1: "batches s1 = (batches s)[n := (batches s ! n)\<lparr>pending := []\<rparr>]"
    and f1: "queue s1 = queue s" "history s1 = history s"
    by blast
  from queue_inv_execute[OF inv e1] obtain d1 where inv1: "queue_inv s1 d1" by blast
  from b1 n have n1: "n < length (batches s1)" by simp
  from b1 n ph have p1: "phase (batches s1 ! n) = Running" "pending (batches s1 ! n) = []"
    by simp_all
  from finish_head[OF inv1 n1 p1] obtain s2 where
    fin: "finish n s1 = Some s2" and q2: "queue s2 = tl (queue s1)"
    and h2: "history s2 = history s1 @ [Completed n]"
    and l2: "length (batches s2) = length (batches s1)"
    and d2: "phase (batches s2 ! n) = Done"
    and nx: "Suc n < length (batches s1) \<longrightarrow>
                 batches s2 ! Suc n = (batches s1 ! Suc n)\<lparr>phase := Released\<rparr>"
    by blast
  from e1 fin have ex: "execute beh (replicate (length ?ps) (Settle n 0) @ [Finish n]) s = Some s2"
    by (simp add: execute_append)
  have next_ok: "phase (batches s2 ! Suc n) = Released
        \<and> (\<exists>s3. run_batch beh (Suc n) s2 = Some s3 \<and> Began (Suc n) \<in> set (history s3))"
    if lt: "Suc n < length (batches s)"
  proof -
    from lt b1 nx have r: "phase (batches s2 ! Suc n) = Released" by simp
    from lt b1 l2 have "Suc n < length (batches s2)" by simp
    from run_batch_begins[OF this r] r show ?thesis by blast
  qed
  from ex d2 h2 q2 l2 f1 b1 next_ok show ?thesis by auto
qed


lemma on_known_event_appends:
  assumes "map_of (handlers st) ev = Some hs"
  shows "on ev h st = (st\<lparr>handlers := AList.update ev (hs @ [h]) (handlers st)\<rparr>, None)"
    and "map_of (handlers (fst (on ev h st))) ev = Some (hs @ [h])"
    and "ev' \<noteq> ev \<Longrightarrow> map_of (handlers (fst (on ev h st))) ev' = map_of (handlers st) ev'"
  using assms by (simp_all add: on_def update_conv')

lemma on_unknown_event_ignored:
  assumes "map_of (handlers st) ev = None" "ev \<notin> set object_prototype_keys"
  shows "on ev h st = (st, None)"
  using assms by (simp add: on_def js_get_def)

lemma on_inherited_event_throws:
  assumes "map_of (handlers st) ev = None" "ev \<in> set object_prototype_keys"
  shows "on ev h st = (st, Some TypeError)"
  using assms by (simp add: on_def js_get_def)


subsection \<open>The queue drains\<close>

lemma list_all_list_update:
  "list_all P xs \<Longrightarrow> P y \<Longrightarrow> list_all P (xs[n := y])"
  by (auto simp: list_all_iff dest!: set_update_subset_insert[THEN subsetD])

lemma list_all_nth: "list_all P xs \<Longrightarrow> n < length xs \<Longrightarrow> P (xs ! n)"
  by (simp add: list_all_iff)

lemma release_phase_only:
  "list_all P bs \<Longrightarrow> (\<And>b. P b \<Longrightarrow> P (b\<lparr>phase := Released\<rparr>)) \<Longrightarrow> list_all P (release m bs)"
  by (simp add: release_def list_all_list_update list_all_nth)

lemma pending_ok_step:
  assumes "pending_ok beh st" "take_step beh s st = Some st'"
  shows "pending_ok beh st'"
proof (cases s)
  case (Notify ev as)
  with assms show ?thesis by (auto simp: pending_ok_def notify_def Let_def)
next
  case (On ev h)
  with assms show ?thesis by (auto simp: pending_ok_def on_def split: jsval.splits)
next
  case (RunBatch n)
  with assms(2) have r: "run_batch beh n st = Some st'" by simp
  then have n: "n < length (batches st)" by (auto simp: run_batch_def split: if_splits)
  from assms(1) have all: "list_all (\<lambda>b. list_all (\<lambda>h. is_async (beh h (batch_args b))) (pending b)) (batches st)"
    by (simp add: pending_ok_def)
  from list_all_nth[OF all n]
  have pn: "list_all (\<lambda>h. is_async (beh h (batch_args (batches st ! n)))) (pending (batches st ! n))" .
  let ?P = "\<lambda>b. list_all (\<lambda>h. is_async (beh h (batch_args b))) (pending b)"
  from r n obtain y where y: "batches st' = (batches st)[n := y]" and py: "?P y"
  proof (cases "resolve_handlers st (batch_event (batches st ! n))")
    case Undefined
    with r n that[of "(batches st ! n)\<lparr>phase := Running, pending := []\<rparr>"] show ?thesis
      by (auto simp: run_batch_def Let_def split: if_splits)
  next
    case (Own hs)
    with r n that[of "(batches st ! n)\<lparr>phase := Running,
        pending := filter (\<lambda>h. is_async (beh h (batch_args (batches st ! n)))) hs\<rparr>"] show ?thesis
      by (auto simp: run_batch_def Let_def list_all_iff split: if_splits)
  next
    case (Inherited k)
    with r n pn that[of "(batches st ! n)\<lparr>phase := Failed\<rparr>"] show ?thesis
      by (auto simp: run_batch_def Let_def split: if_splits)
  qed
  from all py have "list_all ?P ((batches st)[n := y])" by (rule list_all_list_update)
  with y show ?thesis by (simp add: pending_ok_def)
next
  case (Settle n k)
  with assms(2) have r: "settle beh n k st = Some st'" by simp
  then have n: "n < length (batches st)" by (auto simp: settle_def split: if_splits)
  from assms(1) have all: "list_all (\<lambda>b. list_all (\<lambda>h. is_async (beh h (batch_args b))) (pending b)) (batches st)"
    by (simp add: pending_ok_def)
  from list_all_nth[OF all n]
  have pn: "list_all (\<lambda>h. is_async (beh h (batch_args (batches st ! n)))) (pending (batches st ! n))" .
  have sub: "list_all (\<lambda>h. is_async (beh h (batch_args (batches st ! n))))
      (take k (pending (batches st ! n)) @ drop (Suc k) (pending (batches st ! n)))"
    using pn by (auto simp: list_all_iff dest: in_set_takeD in_set_dropD)
  let ?P = "\<lambda>b. list_all (\<lambda>h. is_async (beh h (batch_args b))) (pending b)"
  let ?y = "(batches st ! n)\<lparr>pending := take k (pending (batches st ! n))
                                   @ drop (Suc k) (pending (batches st ! n))\<rparr>"
  from r n have y: "batches st' = (batches st)[n := ?y]"
    by (auto simp: settle_def Let_def split: if_splits behaviour.splits)
  from sub have "?P ?y" by simp
  with all have "list_all ?P ((batches st)[n := ?y])" by (rule list_all_list_update)
  with y show ?thesis by (simp add: pending_ok_def)
next
  case (Finish n)
  with assms(2) have r: "finish n st = Some st'" by simp
  then have n: "n < length (batches st)" by (auto simp: finish_def split: if_splits)
  from assms(1) have all: "list_all (\<lambda>b. list_all (\<lambda>h. is_async (beh h (batch_args b))) (pending b)) (batches st)"
    by (simp add: pending_ok_def)
  from list_all_nth[OF all n]
  have pn: "list_all (\<lambda>h. is_async (beh h (batch_args (batches st ! n)))) (pending (batches st ! n))" .
  have upd: "list_all (\<lambda>b. list_all (\<lambda>h. is_async (beh h (batch_args b))) (pending b))
      ((batches st)[n := (batches st ! n)\<lparr>phase := Done\<rparr>])"
    using pn by (intro list_all_list_update[OF all]) simp
  from r n have "batches st' = (batches st)[n := (batches st ! n)\<lparr>phase := Done\<rparr>]
      \<or> (\<exists>m. batches st' = release m ((batches st)[n := (batches st ! n)\<lparr>phase := Done\<rparr>]))"
    by (auto simp: finish_def Let_def split: if_splits list.splits)
  then show ?thesis
    unfolding pending_ok_def
    using upd by (auto intro!: release_phase_only)
qed


lemma failed_ok_step:
  assumes "failed_ok st" "take_step beh s st = Some st'"
  shows "failed_ok st'"
proof (cases s)
  case (Notify ev as)
  with assms show ?thesis by (auto simp: failed_ok_def notify_def Let_def)
next
  case (On ev h)
  with assms show ?thesis by (auto simp: failed_ok_def on_def split: jsval.splits)
next
  case (RunBatch n)
  with assms(2) have r: "run_batch beh n st = Some st'" by simp
  then have n: "n < length (batches st)" by (auto simp: run_batch_def split: if_splits)
  let ?P = "\<lambda>b. phase b \<noteq> Failed \<or> names_inherited (batch_event b)"
  from assms(1) have all: "list_all ?P (batches st)" by (simp add: failed_ok_def)
  from r n obtain y where y: "batches st' = (batches st)[n := y]" and py: "?P y"
  proof (cases "resolve_handlers st (batch_event (batches st ! n))")
    case Undefined
    with r n that[of "(batches st ! n)\<lparr>phase := Running, pending := []\<rparr>"] show ?thesis
      by (auto simp: run_batch_def Let_def split: if_splits)
  next
    case (Own hs)
    with r n that[of "(batches st ! n)\<lparr>phase := Running,
        pending := filter (\<lambda>h. is_async (beh h (batch_args (batches st ! n)))) hs\<rparr>"] show ?thesis
      by (auto simp: run_batch_def Let_def split: if_splits)
  next
    case (Inherited k)
    then have "names_inherited (batch_event (batches st ! n))"
      by (cases "batch_event (batches st ! n)")
         (auto simp: resolve_handlers_def js_get_def split: option.splits if_splits)
    with Inherited r n that[of "(batches st ! n)\<lparr>phase := Failed\<rparr>"] show ?thesis
      by (auto simp: run_batch_def Let_def split: if_splits)
  qed
  from all py have "list_all ?P ((batches st)[n := y])" by (rule list_all_list_update)
  with y show ?thesis by (simp add: failed_ok_def)
next
  case (Settle n k)
  with assms(2) have r: "settle beh n k st = Some st'" by simp
  then have n: "n < length (batches st)" and ph: "phase (batches st ! n) = Running"
    by (auto simp: settle_def split: if_splits)
  let ?P = "\<lambda>b. phase b \<noteq> Failed \<or> names_inherited (batch_event b)"
  let ?y = "(batches st ! n)\<lparr>pending := take k (pending (batches st ! n))
                                   @ drop (Suc k) (pending (batches st ! n))\<rparr>"
  from assms(1) have all: "list_all ?P (batches st)" by (simp add: failed_ok_def)
  from r n have y: "batches st' = (batches st)[n := ?y]"
    by (auto simp: settle_def Let_def split: if_splits behaviour.splits)
  from ph have "?P ?y" by simp
  with all have "list_all ?P ((batches st)[n := ?y])" by (rule list_all_list_update)
  with y show ?thesis by (simp add: failed_ok_def)
next
  case (Finish n)
  with assms(2) have r: "finish n st = Some st'" by simp
  then have n: "n < length (batches st)" by (auto simp: finish_def split: if_splits)
  let ?P = "\<lambda>b. phase b \<noteq> Failed \<or> names_inherited (batch_event b)"
  from assms(1) have all: "list_all ?P (batches st)" by (simp add: failed_ok_def)
  have upd: "list_all ?P ((batches st)[n := (batches st ! n)\<lparr>phase := Done\<rparr>])"
    by (intro list_all_list_update[OF all]) simp
  from r n have "batches st' = (batches st)[n := (batches st ! n)\<lparr>phase := Done\<rparr>]
      \<or> (\<exists>m. batches st' = release m ((batches st)[n := (batches st ! n)\<lparr>phase := Done\<rparr>]))"
    by (auto simp: finish_def Let_def split: if_splits list.splits)
  then show ?thesis
    unfolding failed_ok_def
    using upd by (auto intro!: release_phase_only)
qed

lemma map_list_update_same:
  "n < length xs \<Longrightarrow> f y = f (xs ! n) \<Longrightarrow> map f (xs[n := y]) = map f xs"
  by (simp add: map_update list_update_same_conv)

lemma release_events: "map batch_event (release m bs) = map batch_event bs"
  by (simp add: release_def map_list_update_same)

lemma events_internal_step:
  assumes "internal s" "take_step beh s st = Some st'"
  shows "map batch_event (batches st') = map batch_event (batches st)"
proof (cases s)
  case (Notify ev as)
  with assms show ?thesis by simp
next
  case (On ev h)
  with assms show ?thesis by simp
next
  case (RunBatch n)
  with assms(2) show ?thesis
    by (auto simp: run_batch_def Let_def map_list_update_same split: if_splits jsval.splits)
next
  case (Settle n k)
  with assms(2) show ?thesis
    by (auto simp: settle_def Let_def map_list_update_same split: if_splits behaviour.splits)
next
  case (Finish n)
  with assms(2) show ?thesis
    by (auto simp: finish_def Let_def map_list_update_same release_events
        split: if_splits list.splits)
qed

lemma invariants_execute:
  assumes "execute beh ss st = Some st'"
  shows "pending_ok beh st \<longrightarrow> pending_ok beh st'"
    and "failed_ok st \<longrightarrow> failed_ok st'"
    and "list_all internal ss \<longrightarrow> map batch_event (batches st') = map batch_event (batches st)"
  using assms
proof (induction ss arbitrary: st)
  case Nil
  { case 1 then show ?case by simp }
  { case 2 then show ?case by simp }
  { case 3 then show ?case by simp }
next
  case (Cons s ss)
  { case 1
    then obtain st1 where a: "take_step beh s st = Some st1" and b: "execute beh ss st1 = Some st'"
      by (auto split: option.splits)
    from Cons.IH(1)[OF b] pending_ok_step[OF _ a] show ?case by blast }
  { case 2
    then obtain st1 where a: "take_step beh s st = Some st1" and b: "execute beh ss st1 = Some st'"
      by (auto split: option.splits)
    from Cons.IH(2)[OF b] failed_ok_step[OF _ a] show ?case by blast }
  { case 3
    then obtain st1 where a: "take_step beh s st = Some st1" and b: "execute beh ss st1 = Some st'"
      by (auto split: option.splits)
    from Cons.IH(3)[OF b] events_internal_step[OF _ a] show ?case by auto }
qed

lemma events_ok_cong:
  "map batch_event (batches st') = map batch_event (batches st) \<Longrightarrow> events_ok st' = events_ok st"
proof -
  assume e: "map batch_event (batches st') = map batch_event (batches st)"
  have "events_ok s = list_all (\<lambda>ev. \<not> names_inherited ev) (map batch_event (batches s))" for s
    by (simp add: events_ok_def list_all_iff)
  with e show ?thesis by simp
qed

lemma queue_inv_unique:
  "queue_inv st d \<Longrightarrow> d = length (batches st) - length (queue st)"
  by (auto simp: queue_inv_def)


lemma inherited_names:
  "resolve_handlers st ev = Inherited k \<Longrightarrow> names_inherited ev"
  by (cases ev) (auto simp: resolve_handlers_def js_get_def split: option.splits if_splits)

lemma list_all_internal_settles [simp]:
  "list_all internal (replicate k (Settle n 0) @ [Finish n])"
  by (induction k) simp_all

lemma running_head_completes:
  assumes inv: "queue_inv st d" and d: "d < length (batches st)"
    and ph: "phase (batches st ! d) = Running"
    and pok: "pending_ok beh st" and nohang: "\<forall>h as. beh h as \<noteq> Hangs"
  shows "\<exists>ss st'. list_all internal ss \<and> execute beh ss st = Some st'
           \<and> queue_inv st' (Suc d) \<and> length (batches st') = length (batches st)"
proof -
  from pok d have "list_all (\<lambda>h. is_async (beh h (batch_args (batches st ! d))))
                     (pending (batches st ! d))"
    unfolding pending_ok_def by (rule list_all_nth)
  with nohang have nh: "list_all (\<lambda>h. is_async (beh h (batch_args (batches st ! d)))
                      \<and> beh h (batch_args (batches st ! d)) \<noteq> Hangs) (pending (batches st ! d))"
    by (simp add: list_all_iff)
  let ?ss = "replicate (length (pending (batches st ! d))) (Settle d 0) @ [Finish d]"
  from complete_running_batch[where beh = beh and s = st and n = d and d = d, OF inv d ph nh]
  obtain st' where ex: "execute beh ?ss st = Some st'"
    and q: "queue st' = tl (queue st)" and l: "length (batches st') = length (batches st)"
    by blast
  from queue_inv_execute[OF inv ex] obtain d' where inv': "queue_inv st' d'" by blast
  from inv have "queue st = [d..<length (batches st)]" by (simp add: queue_inv_def)
  with q d have "length (queue st') = length (batches st) - Suc d" by simp
  with queue_inv_unique[OF inv'] l d have "d' = Suc d" by simp
  with inv' have "queue_inv st' (Suc d)" by simp
  with ex l show ?thesis using list_all_internal_settles by blast
qed

lemma released_head_runs:
  assumes d: "d < length (batches st)" and ph: "phase (batches st ! d) = Released"
    and ev: "\<not> names_inherited (batch_event (batches st ! d))"
  shows "\<exists>st'. run_batch beh d st = Some st' \<and> phase (batches st' ! d) = Running
           \<and> length (batches st') = length (batches st)"
proof (cases "resolve_handlers st (batch_event (batches st ! d))")
  case Undefined
  with d ph show ?thesis by (simp add: run_batch_def Let_def)
next
  case (Own hs)
  with d ph show ?thesis by (simp add: run_batch_def Let_def)
next
  case (Inherited k)
  with ev inherited_names show ?thesis by blast
qed

lemma head_completes:
  assumes inv: "queue_inv st d" and d: "d < length (batches st)"
    and pok: "pending_ok beh st" and fok: "failed_ok st" and eok: "events_ok st"
    and nohang: "\<forall>h as. beh h as \<noteq> Hangs"
  shows "\<exists>ss st'. list_all internal ss \<and> execute beh ss st = Some st'
           \<and> queue_inv st' (Suc d) \<and> length (batches st') = length (batches st)"
proof -
  from eok d have ev: "\<not> names_inherited (batch_event (batches st ! d))"
    unfolding events_ok_def by (rule list_all_nth)
  from inv d have "phase (batches st ! d) \<in> {Released, Running, Failed}"
    by (simp add: queue_inv_def)
  then consider "phase (batches st ! d) = Released" | "phase (batches st ! d) = Running"
    | "phase (batches st ! d) = Failed" by blast
  then show ?thesis
  proof cases
    case 1
    from released_head_runs[where beh = beh, OF d 1 ev] obtain st1 where
      rb: "run_batch beh d st = Some st1" and ph1: "phase (batches st1 ! d) = Running"
      and l1: "length (batches st1) = length (batches st)" by blast
    from queue_inv_run_batch[OF inv rb] have inv1: "queue_inv st1 d" .
    from rb have ts: "take_step beh (RunBatch d) st = Some st1" by simp
    from pending_ok_step[OF pok ts] have pok1: "pending_ok beh st1" .
    from d l1 have d1: "d < length (batches st1)" by simp
    from running_head_completes[OF inv1 d1 ph1 pok1 nohang] obtain ss st' where
      i: "list_all internal ss" and ex: "execute beh ss st1 = Some st'"
      and inv': "queue_inv st' (Suc d)" and l': "length (batches st') = length (batches st1)"
      by blast
    from i have i2: "list_all internal (RunBatch d # ss)" by simp
    from ts ex have ex2: "execute beh (RunBatch d # ss) st = Some st'" by simp
    from l' l1 have "length (batches st') = length (batches st)" by simp
    with i2 ex2 inv' show ?thesis by blast
  next
    case 2
    from running_head_completes[OF inv d 2 pok nohang] show ?thesis .
  next
    case 3
    from fok d have "phase (batches st ! d) \<noteq> Failed \<or> names_inherited (batch_event (batches st ! d))"
      unfolding failed_ok_def by (rule list_all_nth)
    with 3 ev show ?thesis by simp
  qed
qed

lemma queue_drains_from:
  assumes inv: "queue_inv st d" 
    and pok: "pending_ok beh st" and fok: "failed_ok st" and eok: "events_ok st"
    and nohang: "\<forall>h as. beh h as \<noteq> Hangs"
  shows "\<exists>ss st'. list_all internal ss \<and> execute beh ss st = Some st'
           \<and> queue_inv st' (length (batches st)) \<and> length (batches st') = length (batches st)"
  using inv pok fok eok
proof (induction "length (batches st) - d" arbitrary: st d)
  case 0
  then have "d = length (batches st)" by (simp add: queue_inv_def)
  with 0 have "list_all internal [] \<and> execute beh [] st = Some st
           \<and> queue_inv st (length (batches st)) \<and> length (batches st) = length (batches st)"
    by simp
  then show ?case by blast
next
  case (Suc k)
  then have d: "d < length (batches st)" by simp
  from head_completes[OF Suc.prems(1) d Suc.prems(2,3,4) nohang] obtain ss1 st1 where
    i1: "list_all internal ss1" and ex1: "execute beh ss1 st = Some st1"
    and inv1: "queue_inv st1 (Suc d)" and l1: "length (batches st1) = length (batches st)"
    by blast
  from invariants_execute[OF ex1] Suc.prems i1 have pok1: "pending_ok beh st1"
    and fok1: "failed_ok st1"
    and e1: "map batch_event (batches st1) = map batch_event (batches st)" by blast+
  from events_ok_cong[OF e1] Suc.prems(4) have eok1: "events_ok st1" by simp
  from Suc.hyps(2) l1 have k: "k = length (batches st1) - Suc d" by simp
  from Suc.hyps(1)[OF k inv1 pok1 fok1 eok1] obtain ss2 st2 where
    i2: "list_all internal ss2" and ex2: "execute beh ss2 st1 = Some st2"
    and inv2: "queue_inv st2 (length (batches st1))"
    and l2: "length (batches st2) = length (batches st1)" by blast
  from i1 i2 have i: "list_all internal (ss1 @ ss2)" by simp
  from ex1 ex2 have ex: "execute beh (ss1 @ ss2) st = Some st2" by (simp add: execute_append)
  from inv2 l1 have inv': "queue_inv st2 (length (batches st))" by simp
  from l2 l1 have "length (batches st2) = length (batches st)" by simp
  with i ex inv' show ?case by blast
qed

lemma queue_inv_drained:
  assumes "queue_inv st (length (batches st))"
  shows "queue st = []" and "list_all (\<lambda>b. phase b = Done) (batches st)"
    and "filter is_mark (history st) = one_by_one (length (batches st))"
  using assms by (auto simp: queue_inv_def list_all_length)

lemma new_RunDir_ok: "pending_ok beh new_RunDir" "failed_ok new_RunDir"
  by (simp_all add: pending_ok_def failed_ok_def new_RunDir_def)


subsection \<open>A failed batch stays at the head of the queue\<close>









lemma mark_in_history:
  "is_mark x \<Longrightarrow> x \<in> set (history st) \<Longrightarrow> x \<in> set (filter is_mark (history st))"
  by simp




section \<open>The engine's adder\<close>

lemma each_added_cong [fundef_cong]:
  assumes "is = is'" "st = st'" "\<And>i s. i \<in> set is' \<Longrightarrow> f i s = g i s"
  shows "each_added f is st = each_added g is' st'"
  unfolding assms(1,2) using assms(3)
  by (induction is' arbitrary: st') (auto split: prod.splits option.splits)

lemma added_entries_append [simp]:
  "added_entries (xs @ ys) = added_entries xs @ added_entries ys"
  by (induction xs rule: added_entries.induct) auto

lemma added_entries_map_Added [simp]: "added_entries (map Added is) = is"
  by (induction "is") auto

lemma add_files_adds_files:
  "add_files rn is w = (w', tr, e) \<Longrightarrow> i \<in> set (added_entries tr) \<Longrightarrow> isFile i \<and> i \<in> set is"
proof (induction "is" arbitrary: w w' tr e)
  case Nil
  then show ?case by simp
next
  case (Cons j "is")
  have "\<exists>w1 tr1. (if isFile j then fileAdded rn j w else (w, [], None)) = (w1, tr1, None)
           \<and> (tr1 = [] \<or> (tr1 = [Added j] \<and> isFile j))"
    by (simp add: fileAdded_def)
  then obtain w1 tr1 where s: "(if isFile j then fileAdded rn j w else (w, [], None)) = (w1, tr1, None)"
    and t: "tr1 = [] \<or> (tr1 = [Added j] \<and> isFile j)"
    by blast
  obtain w2 tr2 e2 where r: "add_files rn is w1 = (w2, tr2, e2)" by (metis prod_cases3)
  from Cons.prems(1) s r have tr: "tr = tr1 @ tr2" by simp
  with Cons.prems(2) have "i \<in> set (added_entries tr1) \<or> i \<in> set (added_entries tr2)" by simp
  then show ?case
  proof
    assume "i \<in> set (added_entries tr1)"
    with t show ?thesis by auto
  next
    assume "i \<in> set (added_entries tr2)"
    with Cons.IH[OF r] show ?thesis by simp
  qed
qed

lemma nonrecursive_watch_adds:
  assumes "directories w = None" "i \<in> set (added_entries (fst (snd (watch fs rn w))))"
  shows "isFile i \<and> i \<in> set (scan_infos fs (RunWatcher.path w))"
proof (cases "watcher w")
  case (Some h)
  with assms(2) show ?thesis by (simp add: watch_def)
next
  case None
  let ?w1 = "w\<lparr>watcher := Some (FSWatcher (RunWatcher.path w @ ''/.''))\<rparr>"
  let ?is = "scan_infos fs (RunWatcher.path w)"
  obtain w2 tr2 e2 where f: "add_files rn ?is ?w1 = (w2, tr2, e2)" by (metis prod_cases3)
  from add_files_shape[OF f] assms(1) have e2: "e2 = None" and d2: "directories w2 = None"
    by simp_all
  from d2 have ad: "add_directories ?is w2 = (w2, [], None)" by (rule add_directories_None)
  from None f e2 ad have "fst (snd (watch fs rn w)) = InstallHandle # tr2"
    by (simp add: watch_def)
  with assms(2) have "i \<in> set (added_entries tr2)" by simp
  with add_files_adds_files[OF f] show ?thesis by simp
qed

lemma nonrecursive_watch_adds_files:
  "directories w = None \<Longrightarrow> i \<in> set (added_entries (fst (snd (watch fs rn w)))) \<Longrightarrow> isFile i"
  by (simp add: nonrecursive_watch_adds)


text \<open>
  \<^verbatim>\<open>adder\<close>. For a directory without a registered watcher it builds a watcher that does not
  track directories, registers it and starts it with itself as the callback. The calls the new
  watcher makes during its scan do not touch \<^verbatim>\<open>#watchers\<close>, so the model registers the
  watcher as the scan leaves it and then replays the calls.
\<close>

function adder ::
  "filesystem \<Rightarrow> string \<Rightarrow> loader \<Rightarrow> info \<Rightarrow> RunDir \<Rightarrow> RunDir \<times> error option" where
  "adder fs realname ld a st =
     (if isFile a then (adder_file ld a st, None)
      else if isDirectory a \<and> \<not> truthy (js_get (watchers st) (info.path a)) then
        (case each_added (adder fs realname ld)
                (added_entries (fst (snd (watch fs realname (new_RunWatcher (info.path a) False)))))
                (st\<lparr>watchers := AList.update (info.path a)
                       (fst (watch fs realname (new_RunWatcher (info.path a) False)))
                       (watchers st)\<rparr>) of
           (st', Some e) \<Rightarrow> (st', Some e)
         | (st', None) \<Rightarrow>
             (st', snd (snd (watch fs realname (new_RunWatcher (info.path a) False)))))
      else (st, None))"
  by pat_completeness auto

termination adder
proof (relation "measure (\<lambda>(fs, realname, ld, a, st). if isFile a then 0 else (1::nat))")
  show "wf (measure (\<lambda>(fs :: filesystem, realname :: string, ld :: loader, a :: info, st :: RunDir).
              if isFile a then 0 else (1::nat)))"
    by simp
next
  fix fs :: filesystem and realname :: string and ld :: loader and a :: info and st :: RunDir
    and i :: info and s :: RunDir
  assume na: "\<not> isFile a"
    and "i \<in> set (added_entries (fst (snd (watch fs realname (new_RunWatcher (info.path a) False)))))"
  moreover have "directories (new_RunWatcher (info.path a) False) = None"
    by (simp add: new_RunWatcher_def)
  ultimately have "isFile i"
    by (metis nonrecursive_watch_adds_files)
  with na
  show "((fs, realname, ld, i, s), (fs, realname, ld, a, st))
          \<in> measure (\<lambda>(fs, realname, ld, a, st). if isFile a then 0 else 1)"
    by simp
qed


lemma watchers_notify [simp]: "watchers (notify ev as st) = watchers st"
  by (simp add: notify_def Let_def)

lemma watchers_adder_file [simp]: "watchers (adder_file ld a st) = watchers st"
  by (simp add: adder_file_def split: prod.splits sum.splits option.splits)

lemma each_added_files:
  "list_all isFile is \<Longrightarrow>
     each_added (adder fs rn ld) is st = (foldl (\<lambda>s i. adder_file ld i s) st is, None)"
  by (induction "is" arbitrary: st) simp_all

lemma watchers_foldl_adder_file [simp]:
  "watchers (foldl (\<lambda>s i. adder_file ld i s) st is) = watchers st"
  by (induction "is" arbitrary: st) simp_all

lemma nonrecursive_watch_result:
  "directories (fst (watch fs rn (new_RunWatcher p False))) = None
   \<and> watcher (fst (watch fs rn (new_RunWatcher p False))) = Some (FSWatcher (p @ ''/.''))
   \<and> snd (snd (watch fs rn (new_RunWatcher p False))) = None
   \<and> list_all isFile (added_entries (fst (snd (watch fs rn (new_RunWatcher p False)))))"
proof -
  let ?w = "new_RunWatcher p False"
  let ?w1 = "?w\<lparr>watcher := Some (FSWatcher (p @ ''/.''))\<rparr>"
  let ?is = "scan_infos fs p"
  have d: "directories ?w = None" and nw: "watcher ?w = None" and pw: "RunWatcher.path ?w = p"
    by (simp_all add: new_RunWatcher_def)
  obtain w2 tr2 e2 where f: "add_files rn ?is ?w1 = (w2, tr2, e2)" by (metis prod_cases3)
  from add_files_shape[OF f] d have s: "e2 = None" "directories w2 = None" "watcher w2 = Some (FSWatcher (p @ ''/.''))"
    by simp_all
  from s(2) have ad: "add_directories ?is w2 = (w2, [], None)" by (rule add_directories_None)
  from nw pw f s ad have w: "watch fs rn ?w = (w2, InstallHandle # tr2, None)"
    by (simp add: watch_def)
  have "list_all isFile (added_entries (fst (snd (watch fs rn ?w))))"
    using nonrecursive_watch_adds_files[OF d] by (auto simp: list_all_iff)
  with w s show ?thesis by simp
qed

lemma adder_new_directory:
  assumes "\<not> isFile a" "isDirectory a" "js_get (watchers st) (info.path a) = Undefined"
  shows "adder fs rn ld a st =
     (foldl (\<lambda>s i. adder_file ld i s)
        (st\<lparr>watchers := watchers st
               @ [(info.path a, fst (watch fs rn (new_RunWatcher (info.path a) False)))]\<rparr>)
        (added_entries (fst (snd (watch fs rn (new_RunWatcher (info.path a) False))))),
      None)"
proof -
  note R = nonrecursive_watch_result[of fs rn "info.path a"]
  from assms(3) have "map_of (watchers st) (info.path a) = None"
    by (auto simp: js_get_def split: option.splits if_splits)
  then have u: "AList.update (info.path a) w (watchers st) = watchers st @ [(info.path a, w)]" for w
    by (rule update_fresh_append)
  from assms R show ?thesis
    by (simp add: each_added_files u)
qed


lemma adder_file_load_fails:
  assumes "map_of (cache st) (info.path a) = None" "ld (info.path a) = Inl e"
  shows "adder_file ld a st = st\<lparr>console := console st @ [e]\<rparr>"
  using assms by (simp add: adder_file_def require_def)


lemma about_own_file_simps [simp]:
  "about_own_file dir InstallHandle" "about_own_file dir CloseHandle"
  "about_own_file dir (Removed (Inherited k))"
  "about_own_file dir (Added i) = (isFile i \<and> \<not> isDirectory i \<and> info.path i = path_join dir (info.name i))"
  "about_own_file dir (Removed (Own i)) = (isFile i \<and> \<not> isDirectory i \<and> info.path i = path_join dir (info.name i))"
  by (simp_all add: about_own_file_def)

lemma child_info_simps [simp]:
  "info.path (child_info fs dir f) = path_join dir f" "info.name (child_info fs dir f) = f"
  "isFile (child_info fs dir f) = (statSync fs (path_join dir f) = Some File)"
  "isDirectory (child_info fs dir f) = (statSync fs (path_join dir f) = Some Directory)"
  by (simp_all add: child_info_def)

lemma wf_tracked_file_own:
  assumes "wf_watcher rn w" "map_of (files w) k = Some old"
  shows "about_own_file (RunWatcher.path w) (Removed (Own old))"
  using wf_file_entry[OF assms] by (simp add: file_entry_ok_def)

lemma nonrecursive_reconcile_remove:
  assumes wf: "wf_watcher rn w" and d: "directories w = None"
    and r: "reconcile_remove w file i = (w1, tr, e)"
  shows "directories w1 = None \<and> list_all (about_own_file (RunWatcher.path w)) tr"
proof (cases "map_of (files w) file")
  case (Some old)
  with r have "fileRemoved (Own old) w = (w1, tr, e)" by (simp add: reconcile_remove_file)
  then have "directories w1 = directories w" "tr = [Removed (Own old)]"
    by (auto simp: fileRemoved_def)
  with d wf_tracked_file_own[OF wf Some] show ?thesis by simp
next
  case None
  show ?thesis
  proof (cases "file \<in> set object_prototype_keys")
    case True
    with None r have "fileRemoved (Inherited file) w = (w1, tr, e)"
      by (simp add: reconcile_remove_inherited)
    then have "directories w1 = directories w" "tr = [Removed (Inherited file)]"
      by (auto simp: fileRemoved_def)
    with d show ?thesis by simp
  next
    case False
    with None d r have "w1 = w" "tr = []" by (simp_all add: reconcile_remove_nothing)
    with d show ?thesis by simp
  qed
qed

lemma nonrecursive_reconcile_add:
  assumes d: "directories w = None"
    and r: "reconcile_add rn (child_info fs (RunWatcher.path w) file) w = (w1, tr, e)"
  shows "directories w1 = None \<and> list_all (about_own_file (RunWatcher.path w)) tr"
  using assms
  by (auto simp: reconcile_add_def fileAdded_def directoryAdded_def checkDirectory_def
      split: if_splits)

lemma nonrecursive_native_callback:
  assumes wf: "wf_watcher rn w" and d: "directories w = None"
    and r: "native_callback fs rn w ev file = (w', tr, e)"
  shows "directories w' = None \<and> list_all (about_own_file (RunWatcher.path w)) tr"
proof -
  let ?i = "child_info fs (RunWatcher.path w) file"
  obtain w1 tr1 e1 where rm: "reconcile_remove w file ?i = (w1, tr1, e1)" by (metis prod_cases3)
  note R = nonrecursive_reconcile_remove[OF wf d rm]
  show ?thesis
  proof (cases e1)
    case (Some x)
    with r rm have "w' = w1" "tr = tr1" by (simp_all add: native_callback_phases)
    with R show ?thesis by simp
  next
    case None
    obtain w2 tr2 e2 where ad: "reconcile_add rn ?i w1 = (w2, tr2, e2)" by (metis prod_cases3)
    have p1: "RunWatcher.path w1 = RunWatcher.path w"
      using rm
      by (auto simp: reconcile_remove_def fileRemoved_def directoryRemoved_def
          split: if_splits option.splits)
    from R have d1: "directories w1 = None" by simp
    from ad p1 have "reconcile_add rn (child_info fs (RunWatcher.path w1) file) w1 = (w2, tr2, e2)"
      by simp
    from nonrecursive_reconcile_add[OF d1 this] p1
    have A: "directories w2 = None \<and> list_all (about_own_file (RunWatcher.path w)) tr2" by simp
    from r rm ad None have "w' = w2" "tr = tr1 @ tr2" by (simp_all add: native_callback_phases)
    with R A show ?thesis by simp
  qed
qed

lemma add_files_own:
  assumes "add_files rn is w = (w', tr, e)"
    and "list_all (\<lambda>i. info.path i = path_join dir (info.name i) \<and> \<not> (isFile i \<and> isDirectory i)) is"
  shows "list_all (about_own_file dir) tr"
  using assms
proof (induction "is" arbitrary: w w' tr e)
  case Nil
  then show ?case by simp
next
  case (Cons j "is")
  have "\<exists>w1 tr1. (if isFile j then fileAdded rn j w else (w, [], None)) = (w1, tr1, None)
           \<and> (tr1 = [] \<or> (tr1 = [Added j] \<and> isFile j))"
    by (simp add: fileAdded_def)
  then obtain w1 tr1 where s: "(if isFile j then fileAdded rn j w else (w, [], None)) = (w1, tr1, None)"
    and t: "tr1 = [] \<or> (tr1 = [Added j] \<and> isFile j)"
    by blast
  obtain w2 tr2 e2 where r: "add_files rn is w1 = (w2, tr2, e2)" by (metis prod_cases3)
  from Cons.prems(1) s r have tr: "tr = tr1 @ tr2" by simp
  from Cons.prems(2) have rest: "list_all (\<lambda>i. info.path i = path_join dir (info.name i) \<and> \<not> (isFile i \<and> isDirectory i)) is"
    and j: "info.path j = path_join dir (info.name j)" "\<not> (isFile j \<and> isDirectory j)"
    by simp_all
  from t j have "list_all (about_own_file dir) tr1" by auto
  with Cons.IH[OF r rest] tr show ?case by simp
qed

lemma scan_infos_direct:
  "list_all (\<lambda>i. info.path i = path_join dir (info.name i) \<and> \<not> (isFile i \<and> isDirectory i))
     (scan_infos fs dir)"
  by (auto simp: list_all_iff dest: scan_infos_entry)

lemma nonrecursive_watch:
  assumes d: "directories w = None" and r: "watch fs rn w = (w', tr, e)"
  shows "directories w' = None \<and> list_all (about_own_file (RunWatcher.path w)) tr"
proof (cases "watcher w")
  case (Some h)
  with r d show ?thesis by (simp add: watch_def)
next
  case None
  let ?w1 = "w\<lparr>watcher := Some (FSWatcher (RunWatcher.path w @ ''/.''))\<rparr>"
  let ?is = "scan_infos fs (RunWatcher.path w)"
  obtain w2 tr2 e2 where f: "add_files rn ?is ?w1 = (w2, tr2, e2)" by (metis prod_cases3)
  from add_files_shape[OF f] d have s: "e2 = None" "directories w2 = None" by simp_all
  from s(2) have ad: "add_directories ?is w2 = (w2, [], None)" by (rule add_directories_None)
  from None f s ad r have "w' = w2" "tr = InstallHandle # tr2" by (simp_all add: watch_def)
  with s add_files_own[OF f scan_infos_direct] show ?thesis by simp
qed

lemma entries_descending_set: "set (entries_descending al) = snd ` set al"
  by (simp add: entries_descending_def)

lemma nonrecursive_stop:
  assumes wf: "wf_watcher rn w" and d: "directories w = None" and r: "stop w = (w', tr, e)"
  shows "directories w' = None \<and> list_all (about_own_file (RunWatcher.path w)) tr"
proof (cases "watcher w")
  case None
  with r d show ?thesis by (simp add: stop_def)
next
  case (Some h)
  have "about_own_file (RunWatcher.path w) (Removed (Own i))" if "i \<in> set (entries_descending (files w))" for i
  proof -
    from that obtain k where "(k, i) \<in> set (files w)" by (auto simp: entries_descending_set)
    with wf have "file_entry_ok rn (RunWatcher.path w) (k, i)" by (auto simp: wf_watcher_unfold)
    then show ?thesis by (simp add: file_entry_ok_def)
  qed
  then have "list_all (about_own_file (RunWatcher.path w))
               (map (\<lambda>i. Removed (Own i)) (entries_descending (files w)))"
    by (simp add: list_all_iff)
  with stop_eq[OF wf Some] r d show ?thesis
    by (simp add: tracked_directories_None entries_descending_def)
qed


declare adder.simps [simp del]

lemma nonrecursive_watcher_stays:
  assumes wf: "wf_watcher rn w" and d: "directories w = None"
  shows "directories (fst (watch fs rn w)) = None"
    and "list_all (about_own_file (RunWatcher.path w)) (fst (snd (watch fs rn w)))"
    and "directories (fst (stop w)) = None"
    and "list_all (about_own_file (RunWatcher.path w)) (fst (snd (stop w)))"
    and "directories (fst (native_callback fs rn w ev file)) = None"
    and "list_all (about_own_file (RunWatcher.path w)) (fst (snd (native_callback fs rn w ev file)))"
proof -
  have w: "watch fs rn w = (fst (watch fs rn w), fst (snd (watch fs rn w)), snd (snd (watch fs rn w)))"
    by simp
  from nonrecursive_watch[OF d w]
  show "directories (fst (watch fs rn w)) = None"
    and "list_all (about_own_file (RunWatcher.path w)) (fst (snd (watch fs rn w)))"
    by blast+
  have s: "stop w = (fst (stop w), fst (snd (stop w)), snd (snd (stop w)))" by simp
  from nonrecursive_stop[OF wf d s]
  show "directories (fst (stop w)) = None"
    and "list_all (about_own_file (RunWatcher.path w)) (fst (snd (stop w)))"
    by blast+
  let ?N = "native_callback fs rn w ev file"
  have n: "?N = (fst ?N, fst (snd ?N), snd (snd ?N))" by simp
  from nonrecursive_native_callback[OF wf d n]
  show "directories (fst ?N) = None"
    and "list_all (about_own_file (RunWatcher.path w)) (fst (snd ?N))"
    by blast+
qed


lemma nonrecursive_callback_wf:
  assumes wf: "wf_watcher rn w" and h: "watcher w \<noteq> None"
  shows "wf_watcher rn (fst (native_callback fs rn w ev file))"
proof -
  let ?N = "native_callback fs rn w ev file"
  have n: "?N = (fst ?N, fst (snd ?N), snd (snd ?N))" by simp
  from wf_native_callback[OF wf h n] show ?thesis by blast
qed

lemma reconcile_remove_adds_nothing:
  "reconcile_remove w file i = (w1, tr1, e1) \<Longrightarrow> added_entries tr1 = []"
  by (auto simp: reconcile_remove_def fileRemoved_def directoryRemoved_def
          split: if_splits option.splits)

lemma nonrecursive_directory_ignored:
  assumes wf: "wf_watcher rn w" and d: "directories w = None"
    and sd: "statSync fs (path_join (RunWatcher.path w) file) = Some Directory"
  shows "added_entries (fst (snd (native_callback fs rn w ev file))) = []"
proof -
  let ?i = "child_info fs (RunWatcher.path w) file"
  obtain w1 tr1 e1 where rm: "reconcile_remove w file ?i = (w1, tr1, e1)" by (metis prod_cases3)
  from nonrecursive_reconcile_remove[OF wf d rm] have d1: "directories w1 = None" by blast
  from rm have t1: "added_entries tr1 = []" by (rule reconcile_remove_adds_nothing)
  from sd d1 have ad: "reconcile_add rn ?i w1 = (w1, [], None)"
    by (simp add: reconcile_add_def directoryAdded_def checkDirectory_def)
  show ?thesis
  proof (cases e1)
    case None
    with rm ad t1 show ?thesis by (simp add: native_callback_phases)
  next
    case (Some x)
    with rm t1 show ?thesis by (simp add: native_callback_phases)
  qed
qed


lemma adder_creates_nonrecursive_watcher:
  assumes h1: "\<not> isFile a" and h2: "isDirectory a"
    and h3: "js_get (watchers st) (info.path a) = Undefined"
  shows "adder fs rn ld a st =
        each_added (adder fs rn ld)
          (added_entries (fst (snd (watch fs rn (new_RunWatcher (info.path a) False)))))
          (st\<lparr>watchers := watchers st
                 @ [(info.path a, fst (watch fs rn (new_RunWatcher (info.path a) False)))]\<rparr>)"
    and "snd (adder fs rn ld a st) = None"
    and "watchers (fst (adder fs rn ld a st)) =
          watchers st @ [(info.path a, fst (watch fs rn (new_RunWatcher (info.path a) False)))]"
proof -
  let ?W = "watch fs rn (new_RunWatcher (info.path a) False)"
  let ?st1 = "st\<lparr>watchers := watchers st @ [(info.path a, fst ?W)]\<rparr>"
  note R = nonrecursive_watch_result[of fs rn "info.path a"]
  have A: "adder fs rn ld a st =
     (foldl (\<lambda>s i. adder_file ld i s) ?st1 (added_entries (fst (snd ?W))), None)"
    using h1 h2 h3 by (rule adder_new_directory)
  from R have lf: "list_all isFile (added_entries (fst (snd ?W)))" by blast
  have E: "each_added (adder fs rn ld) (added_entries (fst (snd ?W))) ?st1 =
     (foldl (\<lambda>s i. adder_file ld i s) ?st1 (added_entries (fst (snd ?W))), None)"
    using lf by (rule each_added_files)
  show "adder fs rn ld a st = each_added (adder fs rn ld) (added_entries (fst (snd ?W))) ?st1"
    unfolding A E by (rule refl)
  show "snd (adder fs rn ld a st) = None" unfolding A by (rule snd_conv)
  have "watchers (foldl (\<lambda>s i. adder_file ld i s) ?st1 (added_entries (fst (snd ?W))))
          = watchers ?st1"
    by (rule watchers_foldl_adder_file)
  then show "watchers (fst (adder fs rn ld a st)) = watchers st @ [(info.path a, fst ?W)]"
    unfolding A by simp
qed

lemma created_watcher_wf:
  assumes "distinct (readdirSync fs p)"
  shows "wf_watcher rn (fst (watch fs rn (new_RunWatcher p False)))"
proof -
  let ?w = "new_RunWatcher p False"
  have a: "wf_watcher rn ?w" by (rule wf_new)
  have b: "watcher ?w = None" by (simp add: new_RunWatcher_def)
  have c: "distinct (readdirSync fs (RunWatcher.path ?w))"
    using assms by (simp add: new_RunWatcher_def)
  have d: "watch fs rn ?w = (fst (watch fs rn ?w), fst (snd (watch fs rn ?w)), snd (snd (watch fs rn ?w)))"
    by simp
  from a b c d show ?thesis by (rule wf_watch)
qed


lemma demo_wf: "wf_watcher demo_realname demo_root"
  by (simp add: wf_watcher_def demo_root_def demo_entry_def tracked_directories_def file_entry_ok_def
     directory_entry_ok_def fileInfo_def path_join_def endsWith_def demo_realname_def object_prototype_keys_def)


lemma demo_sub_watch:
  "watch demo_fs demo_realname (new_RunWatcher ''/srv/a'' False) =
     (\<lparr> path = ''/srv/a'', files = [(''x.js'', demo_entry ''/srv/a'' ''x.js'' File)],
        watcher = Some (FSWatcher ''/srv/a/.''), directories = None \<rparr>,
      [InstallHandle, Added (demo_entry ''/srv/a'' ''x.js'' File)], None)"
  by (simp add: watch_def new_RunWatcher_def scan_infos_def child_info_def demo_fs_def path_join_def
      fileAdded_def directoryAdded_def checkFile_def checkDirectory_def js_get_def endsWith_def
      object_prototype_keys_def demo_realname_def demo_entry_def fileInfo_def)


lemma demo_scanned_files:
  "scanned_files demo_fs demo_realname (new_RunWatcher ''/srv'' True) =
     [demo_entry ''/srv'' ''a.js'' File, demo_entry ''/srv'' ''b.js'' File]"
  by (simp add: scanned_files_def eligible_file_def new_RunWatcher_def scan_infos_def child_info_def
      demo_fs_def path_join_def checkFile_def js_get_def endsWith_def
      object_prototype_keys_def demo_realname_def demo_entry_def fileInfo_def)

lemma demo_scanned_directories:
  "scanned_directories demo_fs (new_RunWatcher ''/srv'' True) =
     [demo_entry ''/srv'' ''a'' Directory, demo_entry ''/srv'' ''z'' Directory]"
  by (simp add: scanned_directories_def eligible_directory_def new_RunWatcher_def scan_infos_def
      child_info_def demo_fs_def path_join_def checkDirectory_def js_get_def
      object_prototype_keys_def demo_entry_def fileInfo_def)


lemma demo_execute:
  "execute demo_behaviour demo_schedule new_RunDir =
     Some demo_running"
  by (simp add: demo_running_def demo_schedule_def demo_calls_def new_RunDir_def on_def notify_def run_batch_def js_get_def
      resolve_handlers_def demo_behaviour_def Let_def object_prototype_keys_def)


lemma demo_execute_calls: "execute demo_behaviour demo_calls new_RunDir = Some demo_released"
  by (simp add: demo_released_def demo_calls_def new_RunDir_def on_def notify_def js_get_def
      Let_def object_prototype_keys_def)

lemma demo_execute_next:
  "execute demo_behaviour (demo_schedule @ [Settle 0 0, Finish 0]) new_RunDir = Some demo_next"
proof -
  have "execute demo_behaviour (demo_schedule @ [Settle 0 0, Finish 0]) new_RunDir
          = execute demo_behaviour [Settle 0 0, Finish 0] demo_running"
    by (simp add: execute_append demo_execute)
  also have "\<dots> = Some demo_next"
    by (simp add: demo_running_def demo_next_def settle_def finish_def
        release_def Let_def demo_behaviour_def new_RunDir_def)
  finally show ?thesis .
qed

lemma demo_sub_scan:
  "added_entries (fst (snd (watch demo_fs demo_realname (new_RunWatcher ''/srv/a'' False))))
     = [demo_entry ''/srv/a'' ''x.js'' File]"
  by (simp add: demo_sub_watch)


lemma demo_sub_watch_eq:
  "watch demo_fs demo_realname (new_RunWatcher ''/srv/a'' False) =
     (demo_sub, [InstallHandle, Added (demo_entry ''/srv/a'' ''x.js'' File)], None)"
  by (simp add: demo_sub_watch demo_sub_def)

lemma demo_sub_wf: "wf_watcher demo_realname demo_sub"
  by (simp add: wf_watcher_def demo_sub_def demo_entry_def tracked_directories_def file_entry_ok_def
     fileInfo_def path_join_def endsWith_def demo_realname_def)

lemma demo_never_hangs: "\<forall>h as. demo_behaviour h as \<noteq> Hangs"
  by (simp add: demo_behaviour_def)

lemma demo_next_events_ok: "events_ok demo_next"
  by (simp add: events_ok_def demo_next_def object_prototype_keys_def)


section \<open>The reconciliation decision table\<close>

text \<open>
  Claim C2. For a watcher state the operations can produce, the listener's result does not
  depend on the event kind, and for every child name that \<^verbatim>\<open>Object.prototype\<close> does not
  define it follows the table. When the child is tracked as a file, the tracked entry is
  removed and handed to \<^verbatim>\<open>removed\<close> first, whatever the child is now; else, when the watcher
  tracks directories, the child is tracked as one and the fresh stat is not a directory, that
  entry is removed and handed to \<^verbatim>\<open>removed\<close> first; in every other case \<^verbatim>\<open>removed\<close> is not
  called and the listener is the add attempt alone. The add attempt: a fresh stat that says
  file makes the attempt of \<^verbatim>\<open>fileAdded\<close> (guarded by \<^verbatim>\<open>checkFile\<close>), otherwise a fresh
  stat that says directory makes the attempt of \<^verbatim>\<open>directoryAdded\<close> (guarded by
  \<^verbatim>\<open>checkDirectory\<close>, which fails on a watcher without a directory table), and any other
  stat does nothing.

  For a child name that \<^verbatim>\<open>Object.prototype\<close> defines (a file or directory called
  \<^verbatim>\<open>constructor\<close> or \<^verbatim>\<open>toString\<close>, say) the listener leaves the table: the name is tracked
  in neither table, yet \<^verbatim>\<open>this.files[file]\<close> finds the inherited member, so \<^verbatim>\<open>removed\<close> is
  called with that member, and nothing is added.
\<close>

theorem native_callback_decision_table:
  assumes "wf_watcher rn w"
  shows "native_callback fs rn w event file = native_callback fs rn w event' file
    \<and> (\<forall>old. map_of (files w) file = Some old \<longrightarrow>
          native_callback fs rn w event file =
            (case reconcile_add rn (child_info fs (RunWatcher.path w) file)
                    (w\<lparr>files := AList.delete file (files w)\<rparr>) of
               (w', tr, x) \<Rightarrow> (w', Removed (Own old) # tr, x)))
    \<and> (\<forall>ds old. map_of (files w) file = None \<and> directories w = Some ds
            \<and> map_of ds file = Some old \<and> \<not> isDirectory (child_info fs (RunWatcher.path w) file) \<longrightarrow>
          native_callback fs rn w event file =
            (case reconcile_add rn (child_info fs (RunWatcher.path w) file)
                    (w\<lparr>directories := Some (AList.delete file ds)\<rparr>) of
               (w', tr, x) \<Rightarrow> (w', Removed (Own old) # tr, x)))
    \<and> (\<forall>w'. isFile (child_info fs (RunWatcher.path w) file) \<longrightarrow>
          reconcile_add rn (child_info fs (RunWatcher.path w) file) w' =
            (if checkFile rn w' (path_join (RunWatcher.path w) file) file
             then (w'\<lparr>files := AList.update file (child_info fs (RunWatcher.path w) file) (files w')\<rparr>,
                   [Added (child_info fs (RunWatcher.path w) file)], None)
             else (w', [], None)))
    \<and> (\<forall>w' ds. \<not> isFile (child_info fs (RunWatcher.path w) file)
            \<and> isDirectory (child_info fs (RunWatcher.path w) file) \<and> directories w' = Some ds \<longrightarrow>
          reconcile_add rn (child_info fs (RunWatcher.path w) file) w' =
            (if checkDirectory w' (path_join (RunWatcher.path w) file) file
             then (w'\<lparr>directories := Some (AList.update file (child_info fs (RunWatcher.path w) file) ds)\<rparr>,
                   [Added (child_info fs (RunWatcher.path w) file)], None)
             else (w', [], None)))
    \<and> (\<forall>w'. \<not> isFile (child_info fs (RunWatcher.path w) file)
            \<and> isDirectory (child_info fs (RunWatcher.path w) file) \<and> directories w' = None \<longrightarrow>
          reconcile_add rn (child_info fs (RunWatcher.path w) file) w' = (w', [], None))
    \<and> (\<forall>w'. \<not> isFile (child_info fs (RunWatcher.path w) file)
            \<and> \<not> isDirectory (child_info fs (RunWatcher.path w) file) \<longrightarrow>
          reconcile_add rn (child_info fs (RunWatcher.path w) file) w' = (w', [], None))
    \<and> (file \<notin> set object_prototype_keys \<and> map_of (files w) file = None
          \<and> (map_of (tracked_directories w) file = None
              \<or> isDirectory (child_info fs (RunWatcher.path w) file)) \<longrightarrow>
          native_callback fs rn w event file =
            reconcile_add rn (child_info fs (RunWatcher.path w) file) w)
    \<and> (file \<in> set object_prototype_keys \<longrightarrow>
          map_of (files w) file = None \<and> map_of (tracked_directories w) file = None
          \<and> native_callback fs rn w event file = (w, [Removed (Inherited file)], None))"
proof (intro conjI allI impI)
  show "native_callback fs rn w event file = native_callback fs rn w event' file"
    by (simp only: native_callback_def)
next
  fix old assume "map_of (files w) file = Some old"
  with assms show "native_callback fs rn w event file =
            (case reconcile_add rn (child_info fs (RunWatcher.path w) file)
                    (w\<lparr>files := AList.delete file (files w)\<rparr>) of
               (w', tr, x) \<Rightarrow> (w', Removed (Own old) # tr, x))"
    by (simp add: native_callback_phases reconcile_remove_file_eq)
next
  fix ds old
  assume "map_of (files w) file = None \<and> directories w = Some ds
            \<and> map_of ds file = Some old \<and> \<not> isDirectory (child_info fs (RunWatcher.path w) file)"
  with assms show "native_callback fs rn w event file =
            (case reconcile_add rn (child_info fs (RunWatcher.path w) file)
                    (w\<lparr>directories := Some (AList.delete file ds)\<rparr>) of
               (w', tr, x) \<Rightarrow> (w', Removed (Own old) # tr, x))"
    by (simp add: native_callback_phases reconcile_remove_directory_eq)
next
  fix w' :: RunWatcher assume "isFile (child_info fs (RunWatcher.path w) file)"
  then show "reconcile_add rn (child_info fs (RunWatcher.path w) file) w' =
            (if checkFile rn w' (path_join (RunWatcher.path w) file) file
             then (w'\<lparr>files := AList.update file (child_info fs (RunWatcher.path w) file) (files w')\<rparr>,
                   [Added (child_info fs (RunWatcher.path w) file)], None)
             else (w', [], None))"
    by (simp add: reconcile_add_def fileAdded_def child_info_def)
next
  fix w' :: RunWatcher and ds
  assume "\<not> isFile (child_info fs (RunWatcher.path w) file)
            \<and> isDirectory (child_info fs (RunWatcher.path w) file) \<and> directories w' = Some ds"
  then show "reconcile_add rn (child_info fs (RunWatcher.path w) file) w' =
            (if checkDirectory w' (path_join (RunWatcher.path w) file) file
             then (w'\<lparr>directories := Some (AList.update file (child_info fs (RunWatcher.path w) file) ds)\<rparr>,
                   [Added (child_info fs (RunWatcher.path w) file)], None)
             else (w', [], None))"
    by (simp add: reconcile_add_def directoryAdded_def child_info_def)
next
  fix w' :: RunWatcher
  assume "\<not> isFile (child_info fs (RunWatcher.path w) file)
            \<and> isDirectory (child_info fs (RunWatcher.path w) file) \<and> directories w' = None"
  then show "reconcile_add rn (child_info fs (RunWatcher.path w) file) w' = (w', [], None)"
    by (simp add: reconcile_add_def directoryAdded_def checkDirectory_def)
next
  fix w' :: RunWatcher
  assume "\<not> isFile (child_info fs (RunWatcher.path w) file)
            \<and> \<not> isDirectory (child_info fs (RunWatcher.path w) file)"
  then show "reconcile_add rn (child_info fs (RunWatcher.path w) file) w' = (w', [], None)"
    by (simp add: reconcile_add_def)
next
  assume "file \<notin> set object_prototype_keys \<and> map_of (files w) file = None
          \<and> (map_of (tracked_directories w) file = None
              \<or> isDirectory (child_info fs (RunWatcher.path w) file))"
  then show "native_callback fs rn w event file =
            reconcile_add rn (child_info fs (RunWatcher.path w) file) w"
    by (intro native_callback_untracked) simp_all
next
  assume "file \<in> set object_prototype_keys"
  with assms show "map_of (files w) file = None" by (rule wf_file_not_proto)
next
  assume "file \<in> set object_prototype_keys"
  with assms have "file \<notin> fst ` set (tracked_directories w)" by (rule wf_directory_not_proto)
  then show "map_of (tracked_directories w) file = None" by (simp add: map_of_eq_None_iff)
next
  assume "file \<in> set object_prototype_keys"
  with assms show "native_callback fs rn w event file = (w, [Removed (Inherited file)], None)"
    by (rule native_callback_inherited)
qed


theorem native_callback_decision_table_witness:
  "wf_watcher demo_realname demo_root
   \<and> map_of (files demo_root) ''a.js'' = Some (demo_entry ''/srv'' ''a.js'' File)
   \<and> native_callback demo_fs_later demo_realname demo_root ''change'' ''a.js'' =
       (demo_root\<lparr>files := [(''b.js'', demo_entry ''/srv'' ''b.js'' File),
                              (''a.js'', demo_entry ''/srv'' ''a.js'' File)]\<rparr>,
        [Removed (Own (demo_entry ''/srv'' ''a.js'' File)), Added (demo_entry ''/srv'' ''a.js'' File)],
        None)
   \<and> native_callback demo_fs_later demo_realname demo_root ''rename'' ''a.js'' =
       native_callback demo_fs_later demo_realname demo_root ''change'' ''a.js''
   \<and> map_of (files demo_root) ''z'' = None
   \<and> map_of (tracked_directories demo_root) ''z'' = Some (demo_entry ''/srv'' ''z'' Directory)
   \<and> \<not> isDirectory (child_info demo_fs_later ''/srv'' ''z'')
   \<and> native_callback demo_fs_later demo_realname demo_root ''rename'' ''z'' =
       (demo_root\<lparr>directories := Some [(''a'', demo_entry ''/srv'' ''a'' Directory)]\<rparr>,
        [Removed (Own (demo_entry ''/srv'' ''z'' Directory))], None)
   \<and> ''c.js'' \<notin> set object_prototype_keys
   \<and> map_of (files demo_root) ''c.js'' = None
   \<and> map_of (tracked_directories demo_root) ''c.js'' = None
   \<and> native_callback demo_fs_later demo_realname demo_root ''rename'' ''c.js'' =
       (demo_root\<lparr>files := [(''a.js'', demo_entry ''/srv'' ''a.js'' File),
                              (''b.js'', demo_entry ''/srv'' ''b.js'' File),
                              (''c.js'', demo_entry ''/srv'' ''c.js'' File)]\<rparr>,
        [Added (demo_entry ''/srv'' ''c.js'' File)], None)
   \<and> ''constructor'' \<in> set object_prototype_keys
   \<and> map_of (files demo_root) ''constructor'' = None
   \<and> map_of (tracked_directories demo_root) ''constructor'' = None
   \<and> native_callback demo_fs_later demo_realname demo_root ''rename'' ''constructor'' =
       (demo_root, [Removed (Inherited ''constructor'')], None)"
proof -
  note T = native_callback_decision_table[OF demo_wf, of demo_fs_later]
  have p: "RunWatcher.path demo_root = ''/srv''" by (simp add: demo_root_def)
  have f: "map_of (files demo_root) ''a.js'' = Some (demo_entry ''/srv'' ''a.js'' File)"
    by (simp add: demo_root_def)
  have z: "map_of (files demo_root) ''z'' = None"
      "directories demo_root = Some [(''a'', demo_entry ''/srv'' ''a'' Directory), (''z'', demo_entry ''/srv'' ''z'' Directory)]"
      "map_of [(''a'', demo_entry ''/srv'' ''a'' Directory), (''z'', demo_entry ''/srv'' ''z'' Directory)] ''z'' = Some (demo_entry ''/srv'' ''z'' Directory)"
    by (simp_all add: demo_root_def)
  have nz: "\<not> isDirectory (child_info demo_fs_later ''/srv'' ''z'')"
    by (simp add: child_info_def demo_fs_later_def path_join_def fileInfo_def)
  from T[of "''change''" "''a.js''" "''rename''"] f
  have 1: "native_callback demo_fs_later demo_realname demo_root ''change'' ''a.js'' =
            (case reconcile_add demo_realname (child_info demo_fs_later (RunWatcher.path demo_root) ''a.js'')
                    (demo_root\<lparr>files := AList.delete ''a.js'' (files demo_root)\<rparr>) of
               (w', tr, x) \<Rightarrow> (w', Removed (Own (demo_entry ''/srv'' ''a.js'' File)) # tr, x))"
    by blast
  from T[of "''rename''" "''a.js''" "''change''"]
  have 2: "native_callback demo_fs_later demo_realname demo_root ''rename'' ''a.js'' =
       native_callback demo_fs_later demo_realname demo_root ''change'' ''a.js''"
    by blast
  have 3: "native_callback demo_fs_later demo_realname demo_root ''rename'' ''z'' =
            (case reconcile_add demo_realname (child_info demo_fs_later (RunWatcher.path demo_root) ''z'')
                    (demo_root\<lparr>directories := Some (AList.delete ''z'' [(''a'', demo_entry ''/srv'' ''a'' Directory), (''z'', demo_entry ''/srv'' ''z'' Directory)])\<rparr>) of
               (w', tr, x) \<Rightarrow> (w', Removed (Own (demo_entry ''/srv'' ''z'' Directory)) # tr, x))"
    using z nz p
    by (intro T[THEN conjunct2, THEN conjunct2, THEN conjunct1, rule_format]) simp
  have e1: "native_callback demo_fs_later demo_realname demo_root ''change'' ''a.js'' =
       (demo_root\<lparr>files := [(''b.js'', demo_entry ''/srv'' ''b.js'' File),
                              (''a.js'', demo_entry ''/srv'' ''a.js'' File)]\<rparr>,
        [Removed (Own (demo_entry ''/srv'' ''a.js'' File)), Added (demo_entry ''/srv'' ''a.js'' File)],
        None)"
    unfolding 1
    by (simp add: reconcile_add_def child_info_def demo_fs_later_def path_join_def fileInfo_def
        fileAdded_def checkFile_def js_get_def endsWith_def demo_realname_def demo_root_def
        demo_entry_def object_prototype_keys_def)
  have e3: "native_callback demo_fs_later demo_realname demo_root ''rename'' ''z'' =
       (demo_root\<lparr>directories := Some [(''a'', demo_entry ''/srv'' ''a'' Directory)]\<rparr>,
        [Removed (Own (demo_entry ''/srv'' ''z'' Directory))], None)"
    unfolding 3
    by (simp add: reconcile_add_def child_info_def demo_fs_later_def path_join_def fileInfo_def
        demo_root_def)
  have c: "''c.js'' \<notin> set object_prototype_keys" "map_of (files demo_root) ''c.js'' = None"
      "map_of (tracked_directories demo_root) ''c.js'' = None"
    by (simp_all add: object_prototype_keys_def demo_root_def tracked_directories_def)
  from T[of "''rename''" "''c.js''" "''change''"] c
  have 4: "native_callback demo_fs_later demo_realname demo_root ''rename'' ''c.js'' =
            reconcile_add demo_realname (child_info demo_fs_later (RunWatcher.path demo_root) ''c.js'')
              demo_root"
    by blast
  have e4: "native_callback demo_fs_later demo_realname demo_root ''rename'' ''c.js'' =
       (demo_root\<lparr>files := [(''a.js'', demo_entry ''/srv'' ''a.js'' File),
                              (''b.js'', demo_entry ''/srv'' ''b.js'' File),
                              (''c.js'', demo_entry ''/srv'' ''c.js'' File)]\<rparr>,
        [Added (demo_entry ''/srv'' ''c.js'' File)], None)"
    unfolding 4
    by (simp add: reconcile_add_def child_info_def demo_fs_later_def path_join_def fileInfo_def
        fileAdded_def checkFile_def js_get_def endsWith_def demo_realname_def demo_root_def
        demo_entry_def object_prototype_keys_def)
  have k: "''constructor'' \<in> set object_prototype_keys"
    by (simp add: object_prototype_keys_def)
  from T[of "''rename''" "''constructor''" "''change''"] k
  have 5: "map_of (files demo_root) ''constructor'' = None"
      "map_of (tracked_directories demo_root) ''constructor'' = None"
      "native_callback demo_fs_later demo_realname demo_root ''rename'' ''constructor'' =
         (demo_root, [Removed (Inherited ''constructor'')], None)"
    by blast+
  have a: "wf_watcher demo_realname demo_root
   \<and> map_of (files demo_root) ''a.js'' = Some (demo_entry ''/srv'' ''a.js'' File)
   \<and> native_callback demo_fs_later demo_realname demo_root ''change'' ''a.js'' =
       (demo_root\<lparr>files := [(''b.js'', demo_entry ''/srv'' ''b.js'' File),
                              (''a.js'', demo_entry ''/srv'' ''a.js'' File)]\<rparr>,
        [Removed (Own (demo_entry ''/srv'' ''a.js'' File)), Added (demo_entry ''/srv'' ''a.js'' File)],
        None)
   \<and> native_callback demo_fs_later demo_realname demo_root ''rename'' ''a.js'' =
       native_callback demo_fs_later demo_realname demo_root ''change'' ''a.js''
   \<and> map_of (files demo_root) ''z'' = None
   \<and> map_of (tracked_directories demo_root) ''z'' = Some (demo_entry ''/srv'' ''z'' Directory)
   \<and> \<not> isDirectory (child_info demo_fs_later ''/srv'' ''z'')
   \<and> native_callback demo_fs_later demo_realname demo_root ''rename'' ''z'' =
       (demo_root\<lparr>directories := Some [(''a'', demo_entry ''/srv'' ''a'' Directory)]\<rparr>,
        [Removed (Own (demo_entry ''/srv'' ''z'' Directory))], None)"
    using demo_wf f e1 2 z nz e3 by (simp add: tracked_directories_def)
  from a c e4 k 5 show ?thesis by (simp only: simp_thms)
qed


section \<open>Notifications that change nothing\<close>

text \<open>
  Claim C7, as amended. On a watcher state the operations can produce: a notification for a
  name tracked as a file whose fresh stat still says file hands the tracked entry to
  \<^verbatim>\<open>removed\<close> and then the fresh entry to \<^verbatim>\<open>added\<close>, and tracks the fresh entry; a
  notification for a name tracked as a directory whose fresh stat still says directory makes
  no call at all and leaves the watcher as it was.
\<close>

theorem unchanged_kind_reconciliation:
  assumes "wf_watcher rn w"
  shows "(\<forall>old. map_of (files w) file = Some old
            \<and> statSync fs (path_join (RunWatcher.path w) file) = Some File \<longrightarrow>
          native_callback fs rn w event file =
            (w\<lparr>files := AList.update file (child_info fs (RunWatcher.path w) file)
                           (AList.delete file (files w))\<rparr>,
             [Removed (Own old), Added (child_info fs (RunWatcher.path w) file)], None))
    \<and> (\<forall>ds old. directories w = Some ds \<and> map_of ds file = Some old
            \<and> statSync fs (path_join (RunWatcher.path w) file) = Some Directory \<longrightarrow>
          native_callback fs rn w event file = (w, [], None))"
proof (intro conjI allI impI)
  fix old
  assume a: "map_of (files w) file = Some old
            \<and> statSync fs (path_join (RunWatcher.path w) file) = Some File"
  let ?i = "child_info fs (RunWatcher.path w) file"
  let ?w1 = "w\<lparr>files := AList.delete file (files w)\<rparr>"
  from a assms have rm: "reconcile_remove w file ?i = (?w1, [Removed (Own old)], None)"
    by (simp add: reconcile_remove_file_eq)
  from a assms have ok: "file_entry_ok rn (RunWatcher.path w) (file, old)"
    by (simp add: wf_file_entry)
  then have "endsWith file ''.js'' \<or> endsWith file ''.json''"
    by (simp add: file_entry_ok_def)
  then have np: "file \<notin> set object_prototype_keys"
    by (rule endsWith_js_not_proto)
  have "map_of (AList.delete file (files w)) file = None"
    by (simp add: delete_conv')
  with np have u: "js_get (files ?w1) file = Undefined" by (simp add: js_get_def)
  from ok u have c: "checkFile rn ?w1 (path_join (RunWatcher.path w) file) file"
    by (auto simp: checkFile_def file_entry_ok_def)
  from a c have ad: "reconcile_add rn ?i ?w1 =
      (?w1\<lparr>files := AList.update file ?i (files ?w1)\<rparr>, [Added ?i], None)"
    by (simp add: reconcile_add_def fileAdded_def child_info_def)
  from rm ad show "native_callback fs rn w event file =
            (w\<lparr>files := AList.update file ?i (AList.delete file (files w))\<rparr>,
             [Removed (Own old), Added ?i], None)"
    by (simp add: native_callback_phases)
next
  fix ds old
  assume a: "directories w = Some ds \<and> map_of ds file = Some old
            \<and> statSync fs (path_join (RunWatcher.path w) file) = Some Directory"
  let ?i = "child_info fs (RunWatcher.path w) file"
  from a have d: "isDirectory ?i" "\<not> isFile ?i" by (simp_all add: child_info_def)
  from a assms have u: "js_get (files w) file = Undefined"
    by (metis wf_directory_not_file)
  with a d have rm: "reconcile_remove w file ?i = (w, [], None)"
    by (simp add: reconcile_remove_def)
  from a d have ad: "reconcile_add rn ?i w = (w, [], None)"
    by (simp add: reconcile_add_def directoryAdded_def checkDirectory_def child_info_def)
  from rm ad show "native_callback fs rn w event file = (w, [], None)"
    by (simp add: native_callback_phases)
qed

text \<open>The claim as stated promises the remove and add pair for a directory too. On the
  root watcher of the example tree a notification for the tracked, unchanged directory
  \<^verbatim>\<open>z\<close> calls nothing.\<close>

theorem unchanged_directory_counterexample:
  "map_of (tracked_directories demo_root) ''z'' = Some (demo_entry ''/srv'' ''z'' Directory)
   \<and> statSync demo_fs (path_join (RunWatcher.path demo_root) ''z'') = Some Directory
   \<and> native_callback demo_fs demo_realname demo_root ''change'' ''z'' = (demo_root, [], None)"
  by (simp add: native_callback_def reconcile_remove_def reconcile_add_def child_info_def
      demo_root_def demo_fs_def tracked_directories_def path_join_def js_get_def fileInfo_def
      directoryAdded_def checkDirectory_def object_prototype_keys_def)

theorem unchanged_kind_reconciliation_witness:
  "wf_watcher demo_realname demo_root
   \<and> map_of (files demo_root) ''b.js'' = Some (demo_entry ''/srv'' ''b.js'' File)
   \<and> statSync demo_fs (path_join (RunWatcher.path demo_root) ''b.js'') = Some File
   \<and> native_callback demo_fs demo_realname demo_root ''change'' ''b.js'' =
       (demo_root, [Removed (Own (demo_entry ''/srv'' ''b.js'' File)),
                    Added (demo_entry ''/srv'' ''b.js'' File)], None)
   \<and> directories demo_root = Some [(''a'', demo_entry ''/srv'' ''a'' Directory),
                                    (''z'', demo_entry ''/srv'' ''z'' Directory)]
   \<and> statSync demo_fs (path_join (RunWatcher.path demo_root) ''a'') = Some Directory
   \<and> native_callback demo_fs demo_realname demo_root ''change'' ''a'' = (demo_root, [], None)"
proof -
  note T = unchanged_kind_reconciliation[OF demo_wf, of _ demo_fs]
  have f: "map_of (files demo_root) ''b.js'' = Some (demo_entry ''/srv'' ''b.js'' File)"
    and sf: "statSync demo_fs (path_join (RunWatcher.path demo_root) ''b.js'') = Some File"
    and d: "directories demo_root = Some [(''a'', demo_entry ''/srv'' ''a'' Directory),
                                    (''z'', demo_entry ''/srv'' ''z'' Directory)]"
    and da: "map_of [(''a'', demo_entry ''/srv'' ''a'' Directory),
                                    (''z'', demo_entry ''/srv'' ''z'' Directory)] ''a'' = Some (demo_entry ''/srv'' ''a'' Directory)"
    and sd: "statSync demo_fs (path_join (RunWatcher.path demo_root) ''a'') = Some Directory"
    by (simp_all add: demo_root_def demo_fs_def path_join_def)
  have 1: "native_callback demo_fs demo_realname demo_root ''change'' ''b.js'' =
            (demo_root\<lparr>files := AList.update ''b.js'' (child_info demo_fs (RunWatcher.path demo_root) ''b.js'')
                           (AList.delete ''b.js'' (files demo_root))\<rparr>,
             [Removed (Own (demo_entry ''/srv'' ''b.js'' File)),
              Added (child_info demo_fs (RunWatcher.path demo_root) ''b.js'')], None)"
    using f sf by (intro T[THEN conjunct1, rule_format]) simp
  have 2: "native_callback demo_fs demo_realname demo_root ''change'' ''a'' = (demo_root, [], None)"
    using d da sd by (intro T[THEN conjunct2, rule_format, of "[(''a'', demo_entry ''/srv'' ''a'' Directory),
                                    (''z'', demo_entry ''/srv'' ''z'' Directory)]" "''a''"]) simp
  have e1: "native_callback demo_fs demo_realname demo_root ''change'' ''b.js'' =
       (demo_root, [Removed (Own (demo_entry ''/srv'' ''b.js'' File)),
                    Added (demo_entry ''/srv'' ''b.js'' File)], None)"
    unfolding 1
    by (simp add: child_info_def demo_fs_def path_join_def demo_root_def demo_entry_def)
  from demo_wf f sf e1 d sd 2 show ?thesis by simp
qed


section \<open>When the native handle is installed\<close>

text \<open>
  Claim C3, as amended. \<^verbatim>\<open>watch\<close> on a watcher without a handle installs the native handle
  first and runs the initial scan after it: the first recorded step is the installation, every
  later step is a call of \<^verbatim>\<open>added\<close> made by the scan, the call does not throw and the watcher
  holds the handle afterwards. On a watcher that holds a handle, \<^verbatim>\<open>watch\<close> throws
  \<^verbatim>\<open>Already watching\<close> and does nothing.
\<close>

theorem watch_installs_handle_first:
  "(watcher w = None \<longrightarrow>
      (\<exists>w' tr. watch fs rn w = (w', InstallHandle # tr, None) \<and> list_all is_Added tr
         \<and> watcher w' = Some (FSWatcher (RunWatcher.path w @ ''/.''))))
   \<and> (\<forall>h. watcher w = Some h \<longrightarrow>
         watch fs rn w = (w, [], Some (AlreadyWatching (RunWatcher.path w))))"
proof (intro conjI allI impI)
  assume "watcher w = None"
  then show "\<exists>w' tr. watch fs rn w = (w', InstallHandle # tr, None) \<and> list_all is_Added tr
         \<and> watcher w' = Some (FSWatcher (RunWatcher.path w @ ''/.''))"
    by (rule watch_shape)
next
  fix h assume "watcher w = Some h"
  then show "watch fs rn w = (w, [], Some (AlreadyWatching (RunWatcher.path w)))"
    by (simp add: watch_def)
qed

text \<open>The claim as stated has the handle installed after the scan. Watching the directory
  \<^verbatim>\<open>/srv/a\<close> of the example tree installs the handle and then adds its one script.\<close>

theorem handle_installed_last_counterexample:
  "fst (snd (watch demo_fs demo_realname (new_RunWatcher ''/srv/a'' False))) =
     [InstallHandle, Added (demo_entry ''/srv/a'' ''x.js'' File)]
   \<and> \<not> installs_handle_last (fst (snd (watch demo_fs demo_realname (new_RunWatcher ''/srv/a'' False))))"
  by (simp add: demo_sub_watch installs_handle_last_def)

theorem watch_installs_handle_first_witness:
  "watcher (new_RunWatcher ''/srv/a'' False) = None
   \<and> watch demo_fs demo_realname (new_RunWatcher ''/srv/a'' False) =
     (\<lparr> path = ''/srv/a'', files = [(''x.js'', demo_entry ''/srv/a'' ''x.js'' File)],
        watcher = Some (FSWatcher ''/srv/a/.''), directories = None \<rparr>,
      [InstallHandle, Added (demo_entry ''/srv/a'' ''x.js'' File)], None)
   \<and> watcher demo_root = Some (FSWatcher ''/srv/.'')
   \<and> watch demo_fs demo_realname demo_root = (demo_root, [], Some (AlreadyWatching ''/srv''))"
proof -
  have n: "watcher (new_RunWatcher ''/srv/a'' False) = None" by (simp add: new_RunWatcher_def)
  have s: "watcher demo_root = Some (FSWatcher ''/srv/.'')" by (simp add: demo_root_def)
  note T = watch_installs_handle_first[of _ demo_fs demo_realname]
  from T[of "new_RunWatcher ''/srv/a'' False"] n
  obtain w' tr where 1: "watch demo_fs demo_realname (new_RunWatcher ''/srv/a'' False) = (w', InstallHandle # tr, None)"
    by blast
  from T[of demo_root] s
  have 2: "watch demo_fs demo_realname demo_root = (demo_root, [], Some (AlreadyWatching (RunWatcher.path demo_root)))"
    by blast
  from 1 demo_sub_watch have 3: "watch demo_fs demo_realname (new_RunWatcher ''/srv/a'' False) =
     (\<lparr> path = ''/srv/a'', files = [(''x.js'', demo_entry ''/srv/a'' ''x.js'' File)],
        watcher = Some (FSWatcher ''/srv/a/.''), directories = None \<rparr>,
      [InstallHandle, Added (demo_entry ''/srv/a'' ''x.js'' File)], None)"
    by simp
  from 2 have 4: "watch demo_fs demo_realname demo_root = (demo_root, [], Some (AlreadyWatching ''/srv''))"
    by (simp add: demo_root_def)
  from n s 3 4 show ?thesis by simp
qed


section \<open>Order of the initial scan and of the teardown\<close>

text \<open>
  Claim C5. Take a watcher state the operations can produce and a directory listing without
  repeated names. Started on a watcher without a handle, \<^verbatim>\<open>watch\<close> calls \<^verbatim>\<open>added\<close> for every
  eligible file of the sorted listing, in that ascending order, and only then for every
  eligible directory, again in ascending order; a watcher without a directory table has no
  eligible directory. \<^verbatim>\<open>stop\<close> closes the handle before anything else and then hands to
  \<^verbatim>\<open>removed\<close> every tracked directory in descending name order, followed by every tracked
  file in descending name order; stopping right after the scan undoes it in exactly the
  reverse order and gives back the watcher as it was.
\<close>

theorem scan_and_teardown_order:
  assumes "wf_watcher rn w" and "distinct (readdirSync fs (RunWatcher.path w))"
  shows "(watcher w = None \<longrightarrow>
            watch fs rn w =
              (w\<lparr>watcher := Some (FSWatcher (RunWatcher.path w @ ''/.'')),
                 files := map (\<lambda>i. (info.name i, i)) (scanned_files fs rn w),
                 directories := (case directories w of None \<Rightarrow> None
                   | Some ds \<Rightarrow> Some (map (\<lambda>i. (info.name i, i)) (scanned_directories fs w)))\<rparr>,
               InstallHandle # map Added (scanned_files fs rn w)
                 @ map Added (scanned_directories fs w),
               None)
            \<and> stop (fst (watch fs rn w)) =
              (w, CloseHandle # map (\<lambda>i. Removed (Own i)) (rev (scanned_directories fs w))
                    @ map (\<lambda>i. Removed (Own i)) (rev (scanned_files fs rn w)), None))
    \<and> sorted (map info.name (scanned_files fs rn w))
    \<and> sorted (map info.name (scanned_directories fs w))
    \<and> list_all isFile (scanned_files fs rn w)
    \<and> list_all isDirectory (scanned_directories fs w)
    \<and> (directories w = None \<longrightarrow> scanned_directories fs w = [])
    \<and> (\<forall>h. watcher w = Some h \<longrightarrow>
          stop w =
            (w\<lparr>watcher := None, files := [],
               directories := (case directories w of None \<Rightarrow> None | Some ds \<Rightarrow> Some [])\<rparr>,
             CloseHandle # map (\<lambda>i. Removed (Own i)) (entries_descending (tracked_directories w))
               @ map (\<lambda>i. Removed (Own i)) (entries_descending (files w)),
             None))
    \<and> map info.name (entries_descending (tracked_directories w))
         = rev (sort (map fst (tracked_directories w)))
    \<and> map info.name (entries_descending (files w)) = rev (sort (map fst (files w)))"
proof -
  have A: "watcher w = None \<longrightarrow>
            watch fs rn w =
              (w\<lparr>watcher := Some (FSWatcher (RunWatcher.path w @ ''/.'')),
                 files := map (\<lambda>i. (info.name i, i)) (scanned_files fs rn w),
                 directories := (case directories w of None \<Rightarrow> None
                   | Some ds \<Rightarrow> Some (map (\<lambda>i. (info.name i, i)) (scanned_directories fs w)))\<rparr>,
               InstallHandle # map Added (scanned_files fs rn w)
                 @ map Added (scanned_directories fs w),
               None)
            \<and> stop (fst (watch fs rn w)) =
              (w, CloseHandle # map (\<lambda>i. Removed (Own i)) (rev (scanned_directories fs w))
                    @ map (\<lambda>i. Removed (Own i)) (rev (scanned_files fs rn w)), None)"
    using watch_then_stop[OF assms(1) _ assms(2)] by blast
  have B: "directories w = None \<longrightarrow> scanned_directories fs w = []"
    by (simp add: scanned_directories_def eligible_directory_None)
  have C: "\<forall>h. watcher w = Some h \<longrightarrow>
          stop w =
            (w\<lparr>watcher := None, files := [],
               directories := (case directories w of None \<Rightarrow> None | Some ds \<Rightarrow> Some [])\<rparr>,
             CloseHandle # map (\<lambda>i. Removed (Own i)) (entries_descending (tracked_directories w))
               @ map (\<lambda>i. Removed (Own i)) (entries_descending (files w)),
             None)"
    using stop_eq[OF assms(1)] by blast
  note D = sorted_scanned_files[of fs rn w] sorted_scanned_directories[of fs w]
    scanned_files_are_files[of fs rn w] scanned_directories_are_directories[of fs w]
    wf_names_descending[OF assms(1)]
  from A B C D show ?thesis
    by (intro conjI) assumption+
qed


theorem scan_and_teardown_order_witness:
  "wf_watcher demo_realname (new_RunWatcher ''/srv'' True)
   \<and> distinct (readdirSync demo_fs (RunWatcher.path (new_RunWatcher ''/srv'' True)))
   \<and> watcher (new_RunWatcher ''/srv'' True) = None
   \<and> watch demo_fs demo_realname (new_RunWatcher ''/srv'' True) =
       (demo_root,
        [InstallHandle, Added (demo_entry ''/srv'' ''a.js'' File),
         Added (demo_entry ''/srv'' ''b.js'' File), Added (demo_entry ''/srv'' ''a'' Directory),
         Added (demo_entry ''/srv'' ''z'' Directory)], None)
   \<and> stop demo_root =
       (new_RunWatcher ''/srv'' True,
        [CloseHandle, Removed (Own (demo_entry ''/srv'' ''z'' Directory)),
         Removed (Own (demo_entry ''/srv'' ''a'' Directory)),
         Removed (Own (demo_entry ''/srv'' ''b.js'' File)),
         Removed (Own (demo_entry ''/srv'' ''a.js'' File))], None)"
proof -
  let ?w = "new_RunWatcher ''/srv'' True"
  have wf: "wf_watcher demo_realname ?w" by (rule wf_new)
  have d: "distinct (readdirSync demo_fs (RunWatcher.path ?w))"
    by (simp add: demo_fs_def new_RunWatcher_def)
  have n: "watcher ?w = None" by (simp add: new_RunWatcher_def)
  note T = scan_and_teardown_order[OF wf d, THEN conjunct1, rule_format, OF n]
  have r: "?w\<lparr>watcher := Some (FSWatcher (RunWatcher.path ?w @ ''/.'')),
                 files := map (\<lambda>i. (info.name i, i)) (scanned_files demo_fs demo_realname ?w),
                 directories := (case directories ?w of None \<Rightarrow> None
                   | Some ds \<Rightarrow> Some (map (\<lambda>i. (info.name i, i)) (scanned_directories demo_fs ?w)))\<rparr>
            = demo_root"
    unfolding demo_scanned_files demo_scanned_directories
    by (simp add: new_RunWatcher_def demo_root_def demo_entry_def)
  from T[THEN conjunct1] have 1: "watch demo_fs demo_realname ?w =
       (demo_root,
        [InstallHandle, Added (demo_entry ''/srv'' ''a.js'' File),
         Added (demo_entry ''/srv'' ''b.js'' File), Added (demo_entry ''/srv'' ''a'' Directory),
         Added (demo_entry ''/srv'' ''z'' Directory)], None)"
    unfolding r unfolding demo_scanned_files demo_scanned_directories by simp
  from T[THEN conjunct2] have 2: "stop demo_root =
       (?w,
        [CloseHandle, Removed (Own (demo_entry ''/srv'' ''z'' Directory)),
         Removed (Own (demo_entry ''/srv'' ''a'' Directory)),
         Removed (Own (demo_entry ''/srv'' ''b.js'' File)),
         Removed (Own (demo_entry ''/srv'' ''a.js'' File))], None)"
    unfolding 1 demo_scanned_files demo_scanned_directories by simp
  from wf d n 1 2 show ?thesis by blast
qed


section \<open>One batch at a time, in the order of the calls\<close>

text \<open>
  Claim C1. Take any schedule of calls of \<^verbatim>\<open>#notify\<close> and \<^verbatim>\<open>on\<close> and of callbacks run by the
  event loop, from a fresh engine, and the state it leads to; since every prefix of a schedule
  is a schedule, this is every instant. At most one batch is under way. The begin and
  completion marks observed so far are a prefix of: call 0 begins, call 0 completes, call 1
  begins, call 1 completes, and so on in the order of the calls; so a batch begins only after
  every earlier one has completed. A batch that has completed has no handler promise left
  unsettled.
\<close>

theorem queue_runs_one_batch_at_a_time:
  assumes "execute beh schedule new_RunDir = Some st"
  shows "length (filter under_way (batches st)) \<le> 1
    \<and> prefix (filter is_mark (history st)) (one_by_one (length (batches st)))
    \<and> list_all (\<lambda>b. phase b = Done \<longrightarrow> pending b = []) (batches st)"
proof -
  from queue_inv_execute[OF queue_inv_new assms] obtain d where "queue_inv st d" by blast
  from queue_inv_one_under_way[OF this] queue_inv_marks[OF this] queue_inv_done_settled[OF this]
  show ?thesis by blast
qed


theorem queue_runs_one_batch_at_a_time_witness:
  "execute demo_behaviour demo_schedule new_RunDir = Some demo_running
   \<and> map phase (batches demo_running) = [Running, Waiting, Waiting]
   \<and> length (filter under_way (batches demo_running)) \<le> 1
   \<and> prefix (filter is_mark (history demo_running)) (one_by_one (length (batches demo_running)))
   \<and> list_all (\<lambda>b. phase b = Done \<longrightarrow> pending b = []) (batches demo_running)"
proof -
  have "map phase (batches demo_running) = [Running, Waiting, Waiting]"
    by (simp add: demo_running_def)
  with demo_execute queue_runs_one_batch_at_a_time[OF demo_execute] show ?thesis
    by blast
qed

section \<open>A handler that throws\<close>

text \<open>
  Claim C4. Take a state that a schedule reaches from a fresh engine, and in it a batch that
  has been released and whose handlers resolve to a list. Its first callback runs and calls
  every handler of the list, in order and with the arguments of the call, whatever any of them
  does; the errors of those that throw are printed and the batch is running, not failed. If
  none of the handlers returns a promise that never settles, settling the pending promises and
  running the second callback completes the batch, takes it off the queue, and releases the
  next call, whose first callback can then run and records its begin.
\<close>

theorem handler_failure_is_isolated:
  assumes "execute beh schedule new_RunDir = Some st"
    and "n < length (batches st)" and "phase (batches st ! n) = Released"
    and "resolve_handlers st (batch_event (batches st ! n)) = Own hs"
  shows "\<exists>st1. run_batch beh n st = Some st1
     \<and> history st1 = history st @ Began n # map (\<lambda>h. Invoked n h (batch_args (batches st ! n))) hs
     \<and> console st1 = console st @ concat (map (\<lambda>h. thrown (beh h (batch_args (batches st ! n)))) hs)
     \<and> phase (batches st1 ! n) = Running
     \<and> pending (batches st1 ! n) = filter (\<lambda>h. is_async (beh h (batch_args (batches st ! n)))) hs
     \<and> (list_all (\<lambda>h. beh h (batch_args (batches st ! n)) \<noteq> Hangs) hs \<longrightarrow>
          (\<exists>st2. execute beh (replicate (length (pending (batches st1 ! n))) (Settle n 0)
                              @ [Finish n]) st1 = Some st2
             \<and> phase (batches st2 ! n) = Done
             \<and> history st2 = history st1 @ [Completed n]
             \<and> queue st2 = tl (queue st)
             \<and> (Suc n < length (batches st) \<longrightarrow> phase (batches st2 ! Suc n) = Released
                  \<and> (\<exists>st3. run_batch beh (Suc n) st2 = Some st3
                         \<and> Began (Suc n) \<in> set (history st3)))))"
proof -
  let ?as = "batch_args (batches st ! n)"
  from queue_inv_execute[OF queue_inv_new assms(1)] obtain d where inv: "queue_inv st d" by blast
  from run_batch_handlers[where beh = beh, OF assms(2-4)] assms(2)
  obtain st1 where rb: "run_batch beh n st = Some st1"
    and h1: "history st1 = history st @ Began n # map (\<lambda>h. Invoked n h ?as) hs"
    and c1: "console st1 = console st @ concat (map (\<lambda>h. thrown (beh h ?as)) hs)"
    and n1: "n < length (batches st1)" and l1: "length (batches st1) = length (batches st)"
    and ph1: "phase (batches st1 ! n) = Running"
    and pe1: "pending (batches st1 ! n) = filter (\<lambda>h. is_async (beh h ?as)) hs"
    and as1: "batch_args (batches st1 ! n) = ?as"
    and q1: "queue st1 = queue st"
    by simp
  from queue_inv_run_batch[OF inv rb] have inv1: "queue_inv st1 d" .
  have rest: "\<exists>st2. execute beh (replicate (length (pending (batches st1 ! n))) (Settle n 0)
                              @ [Finish n]) st1 = Some st2
             \<and> phase (batches st2 ! n) = Done
             \<and> history st2 = history st1 @ [Completed n]
             \<and> queue st2 = tl (queue st)
             \<and> (Suc n < length (batches st) \<longrightarrow> phase (batches st2 ! Suc n) = Released
                  \<and> (\<exists>st3. run_batch beh (Suc n) st2 = Some st3
                         \<and> Began (Suc n) \<in> set (history st3)))"
    if nh: "list_all (\<lambda>h. beh h ?as \<noteq> Hangs) hs"
  proof -
    from nh have "list_all (\<lambda>h. is_async (beh h (batch_args (batches st1 ! n)))
                      \<and> beh h (batch_args (batches st1 ! n)) \<noteq> Hangs) (pending (batches st1 ! n))"
      unfolding pe1 as1 by (auto simp: list_all_iff)
    from complete_running_batch[where beh = beh and s = st1 and n = n and d = d, OF inv1 n1 ph1 this]
    show ?thesis unfolding l1 q1 by blast
  qed
  from rb h1 c1 ph1 pe1 rest show ?thesis by blast
qed


theorem handler_failure_is_isolated_witness:
  "execute demo_behaviour demo_calls new_RunDir = Some demo_released
   \<and> phase (batches demo_released ! 0) = Released
   \<and> resolve_handlers demo_released (batch_event (batches demo_released ! 0))
       = Own [Handler 1, Handler 2, Handler 3]
   \<and> demo_behaviour (Handler 2) demo_args = Throws (Thrown ''boom'')
   \<and> run_batch demo_behaviour 0 demo_released = Some demo_running
   \<and> history demo_running =
       [Began 0, Invoked 0 (Handler 1) demo_args, Invoked 0 (Handler 2) demo_args,
        Invoked 0 (Handler 3) demo_args]
   \<and> console demo_running = [Thrown ''boom'']
   \<and> (\<exists>st2. execute demo_behaviour [Settle 0 0, Finish 0] demo_running = Some st2
          \<and> phase (batches st2 ! 0) = Done \<and> queue st2 = [1, 2]
          \<and> phase (batches st2 ! 1) = Released)"
proof -
  have n: "0 < length (batches demo_released)" by (simp add: demo_released_def)
  have r: "phase (batches demo_released ! 0) = Released" by (simp add: demo_released_def)
  have hs: "resolve_handlers demo_released (batch_event (batches demo_released ! 0))
       = Own [Handler 1, Handler 2, Handler 3]"
    by (simp add: demo_released_def resolve_handlers_def js_get_def new_RunDir_def)
  have t: "demo_behaviour (Handler 2) demo_args = Throws (Thrown ''boom'')"
    by (simp add: demo_behaviour_def)
  have rb: "run_batch demo_behaviour 0 demo_released = Some demo_running"
    by (simp add: run_batch_def demo_released_def demo_running_def resolve_handlers_def js_get_def
        new_RunDir_def Let_def demo_behaviour_def)
  have args: "batch_args (batches demo_released ! 0) = demo_args" by (simp add: demo_released_def)
  have nh: "list_all (\<lambda>h. demo_behaviour h (batch_args (batches demo_released ! 0)) \<noteq> Hangs)
              [Handler 1, Handler 2, Handler 3]"
    by (simp add: demo_behaviour_def)
  have pe: "pending (batches demo_running ! 0) = [Handler 3]" by (simp add: demo_running_def)
  have q: "tl (queue demo_released) = [1, 2]" "Suc 0 < length (batches demo_released)"
    by (simp_all add: demo_released_def)
  from handler_failure_is_isolated[OF demo_execute_calls n r hs]
  obtain st1 where a: "run_batch demo_behaviour 0 demo_released = Some st1"
    and b: "history st1 = history demo_released
          @ Began 0 # map (\<lambda>h. Invoked 0 h (batch_args (batches demo_released ! 0)))
                        [Handler 1, Handler 2, Handler 3]"
    and c: "console st1 = console demo_released
          @ concat (map (\<lambda>h. thrown (demo_behaviour h (batch_args (batches demo_released ! 0))))
                      [Handler 1, Handler 2, Handler 3])"
    and d: "list_all (\<lambda>h. demo_behaviour h (batch_args (batches demo_released ! 0)) \<noteq> Hangs)
              [Handler 1, Handler 2, Handler 3] \<longrightarrow>
          (\<exists>st2. execute demo_behaviour
                 (replicate (length (pending (batches st1 ! 0))) (Settle 0 0) @ [Finish 0])
                 st1 = Some st2
             \<and> phase (batches st2 ! 0) = Done
             \<and> history st2 = history st1 @ [Completed 0]
             \<and> queue st2 = tl (queue demo_released)
             \<and> (Suc 0 < length (batches demo_released) \<longrightarrow> phase (batches st2 ! Suc 0) = Released
                  \<and> (\<exists>st3. run_batch demo_behaviour (Suc 0) st2 = Some st3
                         \<and> Began (Suc 0) \<in> set (history st3))))"
    by blast
  from a rb have e: "st1 = demo_running" by simp
  from d nh q(2) obtain st2 where
    x: "execute demo_behaviour
                 (replicate (length (pending (batches st1 ! 0))) (Settle 0 0) @ [Finish 0])
                 st1 = Some st2"
    and y: "phase (batches st2 ! 0) = Done" "queue st2 = tl (queue demo_released)"
      "phase (batches st2 ! Suc 0) = Released"
    by blast
  from x have x': "execute demo_behaviour [Settle 0 0, Finish 0] demo_running = Some st2"
    unfolding e pe by simp
  from y q have y': "phase (batches st2 ! 0) = Done" "queue st2 = [1, 2]"
      "phase (batches st2 ! 1) = Released"
    by simp_all
  from b have b': "history demo_running =
       [Began 0, Invoked 0 (Handler 1) demo_args, Invoked 0 (Handler 2) demo_args,
        Invoked 0 (Handler 3) demo_args]"
    unfolding e args by (simp add: demo_released_def new_RunDir_def)
  from c have c': "console demo_running = [Thrown ''boom'']"
    unfolding e args by (simp add: demo_released_def new_RunDir_def demo_behaviour_def)
  from x' y' have "\<exists>st2. execute demo_behaviour [Settle 0 0, Finish 0] demo_running = Some st2
          \<and> phase (batches st2 ! 0) = Done \<and> queue st2 = [1, 2]
          \<and> phase (batches st2 ! 1) = Released"
    by blast
  with demo_execute_calls r hs t rb b' c' show ?thesis by blast
qed


section \<open>An event name without a handler list\<close>

text \<open>
  First the names that \<^verbatim>\<open>Object.prototype\<close> does not define, for which the registry lookup
  yields \<^verbatim>\<open>undefined\<close>. Take a state that a schedule reaches from a fresh engine, and in it
  a batch that has been released and whose event is such a name. Its first callback runs,
  calls no handler and prints nothing; its second callback can run at once, completes the
  batch and takes it off the queue; and the next call, if there is one, is released, so that
  its first callback can run and records its begin. Moreover, when no handler hangs and no
  call in the queue names a member of \<^verbatim>\<open>Object.prototype\<close>, the steps of the event loop
  alone lead on to a state where the queue is empty and every batch has begun and completed,
  one after the other in the order of the calls.
\<close>

lemma unknown_event_releases_queue_slot:
  assumes "execute beh schedule new_RunDir = Some st"
    and "n < length (batches st)" and "phase (batches st ! n) = Released"
    and "batch_event (batches st ! n) = Named e" and "js_get (handlers st) e = Undefined"
  shows "\<exists>st1 st2. run_batch beh n st = Some st1
     \<and> history st1 = history st @ [Began n] \<and> console st1 = console st
     \<and> finish n st1 = Some st2
     \<and> phase (batches st2 ! n) = Done
     \<and> history st2 = history st @ [Began n, Completed n]
     \<and> queue st2 = tl (queue st)
     \<and> (Suc n < length (batches st) \<longrightarrow> phase (batches st2 ! Suc n) = Released
          \<and> (\<exists>st3. run_batch beh (Suc n) st2 = Some st3 \<and> Began (Suc n) \<in> set (history st3)))
     \<and> ((\<forall>h as. beh h as \<noteq> Hangs) \<and> events_ok st \<longrightarrow>
          (\<exists>ss st'. list_all internal ss \<and> execute beh ss st2 = Some st'
             \<and> queue st' = [] \<and> length (batches st') = length (batches st)
             \<and> list_all (\<lambda>b. phase b = Done) (batches st')
             \<and> filter is_mark (history st') = one_by_one (length (batches st))))"
proof -
  from queue_inv_execute[OF queue_inv_new assms(1)] obtain d where inv: "queue_inv st d" by blast
  from invariants_execute(1,2)[OF assms(1)] new_RunDir_ok
  have pok: "pending_ok beh st" and fok: "failed_ok st" by blast+
  from assms(4,5) have u: "resolve_handlers st (batch_event (batches st ! n)) = Undefined"
    by (simp add: resolve_handlers_def)
  from run_batch_no_handlers[where beh = beh, OF assms(2,3) u] assms(2)
  obtain st1 where rb: "run_batch beh n st = Some st1"
    and h1: "history st1 = history st @ [Began n]" and c1: "console st1 = console st"
    and n1: "n < length (batches st1)" and l1: "length (batches st1) = length (batches st)"
    and ph1: "phase (batches st1 ! n) = Running" and pe1: "pending (batches st1 ! n) = []"
    and q1: "queue st1 = queue st"
    by simp
  from queue_inv_run_batch[OF inv rb] have inv1: "queue_inv st1 d" .
  from pe1 have nh: "list_all (\<lambda>h. is_async (beh h (batch_args (batches st1 ! n)))
                      \<and> beh h (batch_args (batches st1 ! n)) \<noteq> Hangs) (pending (batches st1 ! n))"
    by simp
  from complete_running_batch[where beh = beh and s = st1 and n = n and d = d, OF inv1 n1 ph1 nh]
  obtain st2 where "execute beh (replicate (length (pending (batches st1 ! n))) (Settle n 0) @ [Finish n]) st1
              = Some st2"
    and r: "phase (batches st2 ! n) = Done" "history st2 = history st1 @ [Completed n]"
      "queue st2 = tl (queue st1)"
      "Suc n < length (batches st1) \<longrightarrow> phase (batches st2 ! Suc n) = Released
                \<and> (\<exists>s3. run_batch beh (Suc n) st2 = Some s3 \<and> Began (Suc n) \<in> set (history s3))"
    and l2: "length (batches st2) = length (batches st1)"
    by blast
  then have fin: "finish n st1 = Some st2" unfolding pe1 by (simp split: option.splits)
  from r(2) h1 have h2: "history st2 = history st @ [Began n, Completed n]" by simp
  from r(3) q1 have q2: "queue st2 = tl (queue st)" by simp
  from r(4) l1 have nx: "Suc n < length (batches st) \<longrightarrow> phase (batches st2 ! Suc n) = Released
          \<and> (\<exists>st3. run_batch beh (Suc n) st2 = Some st3 \<and> Began (Suc n) \<in> set (history st3))"
    by simp
  from rb fin have ex2: "execute beh [RunBatch n, Finish n] st = Some st2" by simp
  have drains: "\<exists>ss st'. list_all internal ss \<and> execute beh ss st2 = Some st'
             \<and> queue st' = [] \<and> length (batches st') = length (batches st)
             \<and> list_all (\<lambda>b. phase b = Done) (batches st')
             \<and> filter is_mark (history st') = one_by_one (length (batches st))"
    if nohang: "\<forall>h as. beh h as \<noteq> Hangs" and eok: "events_ok st"
  proof -
    from queue_inv_execute[OF inv ex2] obtain d2 where inv2: "queue_inv st2 d2" by blast
    from invariants_execute[OF ex2] pok fok
    have pok2: "pending_ok beh st2" and fok2: "failed_ok st2"
      and e2: "map batch_event (batches st2) = map batch_event (batches st)" by simp_all
    from events_ok_cong[OF e2] eok have eok2: "events_ok st2" by simp
    from queue_drains_from[OF inv2 pok2 fok2 eok2 nohang] obtain ss st' where
      i: "list_all internal ss" and ex: "execute beh ss st2 = Some st'"
      and inv': "queue_inv st' (length (batches st2))"
      and l': "length (batches st') = length (batches st2)" by blast
    from l' l2 l1 have len: "length (batches st') = length (batches st)" by simp
    from inv' l' have "queue_inv st' (length (batches st'))" by simp
    from queue_inv_drained[OF this] len
    have "queue st' = []" "list_all (\<lambda>b. phase b = Done) (batches st')"
      "filter is_mark (history st') = one_by_one (length (batches st))" by simp_all
    with i ex len show ?thesis by blast
  qed
  from rb h1 c1 fin r(1) h2 q2 nx drains show ?thesis by blast
qed

lemma unknown_event_example:
  "execute demo_behaviour (demo_schedule @ [Settle 0 0, Finish 0]) new_RunDir = Some demo_next
   \<and> phase (batches demo_next ! 1) = Released
   \<and> batch_event (batches demo_next ! 1) = Named ''reload''
   \<and> js_get (handlers demo_next) ''reload'' = Undefined
   \<and> (\<forall>h as. demo_behaviour h as \<noteq> Hangs) \<and> events_ok demo_next
   \<and> (\<exists>st1 st2. run_batch demo_behaviour 1 demo_next = Some st1
          \<and> history st1 = history demo_next @ [Began 1]
          \<and> console st1 = console demo_next
          \<and> finish 1 st1 = Some st2
          \<and> phase (batches st2 ! 1) = Done
          \<and> queue st2 = [2]
          \<and> phase (batches st2 ! 2) = Released
          \<and> (\<exists>ss st'. list_all internal ss \<and> execute demo_behaviour ss st2 = Some st'
                \<and> queue st' = [] \<and> list_all (\<lambda>b. phase b = Done) (batches st')
                \<and> filter is_mark (history st')
                    = [Began 0, Completed 0, Began 1, Completed 1, Began 2, Completed 2]))"
proof -
  have n: "1 < length (batches demo_next)" and r: "phase (batches demo_next ! 1) = Released"
    and e: "batch_event (batches demo_next ! 1) = Named ''reload''"
    and u: "js_get (handlers demo_next) ''reload'' = Undefined"
    and q: "tl (queue demo_next) = [2]" and l: "length (batches demo_next) = 3"
    by (simp_all add: demo_next_def js_get_def object_prototype_keys_def)
  have m: "one_by_one 3 = [Began 0, Completed 0, Began 1, Completed 1, Began 2, Completed 2]"
    by (simp add: numeral_3_eq_3 one_by_one_Suc one_by_one_def)
  from unknown_event_releases_queue_slot[OF demo_execute_next n r e u]
  obtain st1 st2 where a: "run_batch demo_behaviour 1 demo_next = Some st1"
    "history st1 = history demo_next @ [Began 1]" "console st1 = console demo_next"
    "finish 1 st1 = Some st2" "phase (batches st2 ! 1) = Done"
    "queue st2 = tl (queue demo_next)"
    and b: "Suc 1 < length (batches demo_next) \<longrightarrow> phase (batches st2 ! Suc 1) = Released
          \<and> (\<exists>st3. run_batch demo_behaviour (Suc 1) st2 = Some st3 \<and> Began (Suc 1) \<in> set (history st3))"
    and c: "(\<forall>h as. demo_behaviour h as \<noteq> Hangs) \<and> events_ok demo_next \<longrightarrow>
          (\<exists>ss st'. list_all internal ss \<and> execute demo_behaviour ss st2 = Some st'
             \<and> queue st' = [] \<and> length (batches st') = length (batches demo_next)
             \<and> list_all (\<lambda>b. phase b = Done) (batches st')
             \<and> filter is_mark (history st') = one_by_one (length (batches demo_next)))"
    by blast
  from a(6) q have q2: "queue st2 = [2]" by simp
  from b l have p2: "phase (batches st2 ! 2) = Released" by (simp add: numeral_2_eq_2)
  from c demo_never_hangs demo_next_events_ok l m
  have d: "\<exists>ss st'. list_all internal ss \<and> execute demo_behaviour ss st2 = Some st'
                \<and> queue st' = [] \<and> list_all (\<lambda>b. phase b = Done) (batches st')
                \<and> filter is_mark (history st')
                    = [Began 0, Completed 0, Began 1, Completed 1, Began 2, Completed 2]"
    by auto
  from a(1-5) q2 p2 d
  have "\<exists>st1 st2. run_batch demo_behaviour 1 demo_next = Some st1
          \<and> history st1 = history demo_next @ [Began 1]
          \<and> console st1 = console demo_next
          \<and> finish 1 st1 = Some st2
          \<and> phase (batches st2 ! 1) = Done
          \<and> queue st2 = [2]
          \<and> phase (batches st2 ! 2) = Released
          \<and> (\<exists>ss st'. list_all internal ss \<and> execute demo_behaviour ss st2 = Some st'
                \<and> queue st' = [] \<and> list_all (\<lambda>b. phase b = Done) (batches st')
                \<and> filter is_mark (history st')
                    = [Began 0, Completed 0, Began 1, Completed 1, Began 2, Completed 2])"
    by blast
  with demo_execute_next r e u demo_never_hangs demo_next_events_ok show ?thesis by blast
qed



section \<open>Registering a handler under an inherited name\<close>

text \<open>
  Claim C9 holds for \<^verbatim>\<open>load\<close> and \<^verbatim>\<open>unload\<close> (\<open>on_known_event_appends\<close>) and for every other
  name that \<^verbatim>\<open>Object.prototype\<close> does not define (\<open>on_unknown_event_ignored\<close>). For a name that
  it does define, the guard \<^verbatim>\<open>this.#handlers[event]\<close> finds the inherited member, which is
  truthy and has no \<^verbatim>\<open>push\<close>: the call throws a \<^verbatim>\<open>TypeError\<close> instead of being ignored.
  On a fresh engine:
\<close>

theorem on_inherited_name_throws:
  "on ''constructor'' h new_RunDir = (new_RunDir, Some TypeError)
   \<and> on ''toString'' h new_RunDir = (new_RunDir, Some TypeError)
   \<and> on ''__proto__'' h new_RunDir = (new_RunDir, Some TypeError)"
  by (simp add: on_def new_RunDir_def js_get_def object_prototype_keys_def)


section \<open>A script that fails to load\<close>

text \<open>
  Claim C8. When the adder is handed a file that is not in \<^verbatim>\<open>require.cache\<close> and whose
  loading throws, it prints the error and returns normally: nothing else of the engine
  changes, so no load notification and no load hook is queued, and a scan that was handing
  over its entries goes on with the next one.
\<close>

theorem loader_failure_is_contained:
  assumes "isFile a" and "map_of (cache st) (info.path a) = None" and "ld (info.path a) = Inl e"
  shows "adder fs rn ld a st = (st\<lparr>console := console st @ [e]\<rparr>, None)
    \<and> queue (fst (adder fs rn ld a st)) = queue st
    \<and> batches (fst (adder fs rn ld a st)) = batches st
    \<and> each_added (adder fs rn ld) (a # rest) st
        = each_added (adder fs rn ld) rest (st\<lparr>console := console st @ [e]\<rparr>)"
  using assms by (simp add: adder.simps adder_file_load_fails)

theorem loader_failure_is_contained_witness:
  "isFile (demo_entry ''/srv'' ''b.js'' File)
   \<and> map_of (cache new_RunDir) (info.path (demo_entry ''/srv'' ''b.js'' File)) = None
   \<and> demo_loader (info.path (demo_entry ''/srv'' ''b.js'' File)) = Inl (Thrown ''SyntaxError'')
   \<and> adder demo_fs demo_realname demo_loader (demo_entry ''/srv'' ''b.js'' File) new_RunDir
       = (new_RunDir\<lparr>console := [Thrown ''SyntaxError'']\<rparr>, None)
   \<and> each_added (adder demo_fs demo_realname demo_loader)
         [demo_entry ''/srv'' ''b.js'' File, demo_entry ''/srv'' ''a.js'' File] new_RunDir
       = (new_RunDir\<lparr>
            console := [Thrown ''SyntaxError''],
            cache := [(''/srv/a.js'', Exports 9 Absent)],
            queue := [0],
            batches := [\<lparr>batch_event = Named ''load'',
                          batch_args = [Str ''/srv/a.js'', Mod (Exports 9 Absent)],
                          phase = Released, pending = []\<rparr>]\<rparr>, None)"
proof -
  let ?b = "demo_entry ''/srv'' ''b.js'' File"
  have f: "isFile ?b" by (simp add: demo_entry_def)
  have c: "map_of (cache new_RunDir) (info.path ?b) = None" by (simp add: new_RunDir_def)
  have l: "demo_loader (info.path ?b) = Inl (Thrown ''SyntaxError'')"
    by (simp add: demo_loader_def demo_entry_def path_join_def)
  note T = loader_failure_is_contained[where ld = demo_loader and a = "?b" and st = new_RunDir
      and e = "Thrown ''SyntaxError''" and fs = demo_fs and rn = demo_realname, OF f c l]
  from T[where rest = "[]"] have 1: "adder demo_fs demo_realname demo_loader ?b new_RunDir
       = (new_RunDir\<lparr>console := [Thrown ''SyntaxError'']\<rparr>, None)"
    by (simp add: new_RunDir_def)
  from T[where rest = "[demo_entry ''/srv'' ''a.js'' File]"]
  have "each_added (adder demo_fs demo_realname demo_loader)
         [?b, demo_entry ''/srv'' ''a.js'' File] new_RunDir
       = each_added (adder demo_fs demo_realname demo_loader) [demo_entry ''/srv'' ''a.js'' File]
           (new_RunDir\<lparr>console := console new_RunDir @ [Thrown ''SyntaxError'']\<rparr>)"
    by blast
  also have "\<dots> = (new_RunDir\<lparr>
            console := [Thrown ''SyntaxError''],
            cache := [(''/srv/a.js'', Exports 9 Absent)],
            queue := [0],
            batches := [\<lparr>batch_event = Named ''load'',
                          batch_args = [Str ''/srv/a.js'', Mod (Exports 9 Absent)],
                          phase = Released, pending = []\<rparr>]\<rparr>, None)"
    by (simp add: adder.simps demo_entry_def adder_file_def require_def demo_loader_def
        path_join_def new_RunDir_def notify_def Let_def)
  finally have 2: "each_added (adder demo_fs demo_realname demo_loader)
         [?b, demo_entry ''/srv'' ''a.js'' File] new_RunDir
       = (new_RunDir\<lparr>
            console := [Thrown ''SyntaxError''],
            cache := [(''/srv/a.js'', Exports 9 Absent)],
            queue := [0],
            batches := [\<lparr>batch_event = Named ''load'',
                          batch_args = [Str ''/srv/a.js'', Mod (Exports 9 Absent)],
                          phase = Released, pending = []\<rparr>]\<rparr>, None)" .
  from f c l 1 2 show ?thesis by blast
qed


section \<open>One level of subdirectories\<close>

text \<open>
  Claim C6, as amended. Handed a directory for whose path no watcher is registered, the adder
  registers one new watcher, built without a directory table and started with the adder
  itself as callback: the adder is applied to every entry the new watcher's scan adds, all
  of them files, and does not throw. A watcher without a directory table keeps none through
  \<^verbatim>\<open>watch\<close>, \<^verbatim>\<open>stop\<close> and every native notification; every entry it hands to a callback
  is a file lying directly in its own directory; and a notification for a child that is a
  directory hands nothing to \<^verbatim>\<open>added\<close>. So no watcher is created for a directory inside
  it, and nothing inside such a directory is ever handed on.
\<close>

theorem watch_depth_is_one_level:
  "(\<not> isFile a \<and> isDirectory a \<and> js_get (watchers st) (info.path a) = Undefined \<longrightarrow>
      adder fs rn ld a st =
        each_added (adder fs rn ld)
          (added_entries (fst (snd (watch fs rn (new_RunWatcher (info.path a) False)))))
          (st\<lparr>watchers := watchers st
                 @ [(info.path a, fst (watch fs rn (new_RunWatcher (info.path a) False)))]\<rparr>)
      \<and> snd (adder fs rn ld a st) = None
      \<and> watchers (fst (adder fs rn ld a st)) =
          watchers st @ [(info.path a, fst (watch fs rn (new_RunWatcher (info.path a) False)))]
      \<and> directories (fst (watch fs rn (new_RunWatcher (info.path a) False))) = None
      \<and> watcher (fst (watch fs rn (new_RunWatcher (info.path a) False)))
          = Some (FSWatcher (info.path a @ ''/.''))
      \<and> list_all isFile
          (added_entries (fst (snd (watch fs rn (new_RunWatcher (info.path a) False)))))
      \<and> (distinct (readdirSync fs (info.path a)) \<longrightarrow>
            wf_watcher rn (fst (watch fs rn (new_RunWatcher (info.path a) False)))))
   \<and> (wf_watcher rn w \<and> directories w = None \<longrightarrow>
        directories (fst (watch fs rn w)) = None
        \<and> list_all (about_own_file (RunWatcher.path w)) (fst (snd (watch fs rn w)))
        \<and> directories (fst (stop w)) = None
        \<and> list_all (about_own_file (RunWatcher.path w)) (fst (snd (stop w)))
        \<and> (\<forall>ev file.
              directories (fst (native_callback fs rn w ev file)) = None
              \<and> list_all (about_own_file (RunWatcher.path w))
                    (fst (snd (native_callback fs rn w ev file)))
              \<and> (watcher w \<noteq> None \<longrightarrow> wf_watcher rn (fst (native_callback fs rn w ev file)))
              \<and> (statSync fs (path_join (RunWatcher.path w) file) = Some Directory \<longrightarrow>
                    added_entries (fst (snd (native_callback fs rn w ev file))) = [])))"
proof -
  let ?W = "watch fs rn (new_RunWatcher (info.path a) False)"
  have A: "\<not> isFile a \<and> isDirectory a \<and> js_get (watchers st) (info.path a) = Undefined \<longrightarrow>
      adder fs rn ld a st =
        each_added (adder fs rn ld) (added_entries (fst (snd ?W)))
          (st\<lparr>watchers := watchers st @ [(info.path a, fst ?W)]\<rparr>)
      \<and> snd (adder fs rn ld a st) = None
      \<and> watchers (fst (adder fs rn ld a st)) = watchers st @ [(info.path a, fst ?W)]
      \<and> directories (fst ?W) = None
      \<and> watcher (fst ?W) = Some (FSWatcher (info.path a @ ''/.''))
      \<and> list_all isFile (added_entries (fst (snd ?W)))
      \<and> (distinct (readdirSync fs (info.path a)) \<longrightarrow> wf_watcher rn (fst ?W))"
  proof
    assume h: "\<not> isFile a \<and> isDirectory a \<and> js_get (watchers st) (info.path a) = Undefined"
    then have h1: "\<not> isFile a" and h2: "isDirectory a"
      and h3: "js_get (watchers st) (info.path a) = Undefined"
      by blast+
    note C = adder_creates_nonrecursive_watcher[where fs = fs and rn = rn and ld = ld, OF h1 h2 h3]
    note R = nonrecursive_watch_result[of fs rn "info.path a"]
    have W: "distinct (readdirSync fs (info.path a)) \<longrightarrow> wf_watcher rn (fst ?W)"
      using created_watcher_wf[of fs "info.path a" rn] by blast
    from C(1) C(2) C(3) R W
    show "adder fs rn ld a st =
        each_added (adder fs rn ld) (added_entries (fst (snd ?W)))
          (st\<lparr>watchers := watchers st @ [(info.path a, fst ?W)]\<rparr>)
      \<and> snd (adder fs rn ld a st) = None
      \<and> watchers (fst (adder fs rn ld a st)) = watchers st @ [(info.path a, fst ?W)]
      \<and> directories (fst ?W) = None
      \<and> watcher (fst ?W) = Some (FSWatcher (info.path a @ ''/.''))
      \<and> list_all isFile (added_entries (fst (snd ?W)))
      \<and> (distinct (readdirSync fs (info.path a)) \<longrightarrow> wf_watcher rn (fst ?W))"
      by (intro conjI) (assumption | erule conjunct1 | (elim conjE, assumption))+
  qed
  have B: "wf_watcher rn w \<and> directories w = None \<longrightarrow>
        directories (fst (watch fs rn w)) = None
        \<and> list_all (about_own_file (RunWatcher.path w)) (fst (snd (watch fs rn w)))
        \<and> directories (fst (stop w)) = None
        \<and> list_all (about_own_file (RunWatcher.path w)) (fst (snd (stop w)))
        \<and> (\<forall>ev file.
              directories (fst (native_callback fs rn w ev file)) = None
              \<and> list_all (about_own_file (RunWatcher.path w))
                    (fst (snd (native_callback fs rn w ev file)))
              \<and> (watcher w \<noteq> None \<longrightarrow> wf_watcher rn (fst (native_callback fs rn w ev file)))
              \<and> (statSync fs (path_join (RunWatcher.path w) file) = Some Directory \<longrightarrow>
                    added_entries (fst (snd (native_callback fs rn w ev file))) = []))"
  proof
    assume h: "wf_watcher rn w \<and> directories w = None"
    then have wf: "wf_watcher rn w" and d: "directories w = None" by blast+
    note S = nonrecursive_watcher_stays[OF wf d]
    have N: "directories (fst (native_callback fs rn w ev file)) = None
              \<and> list_all (about_own_file (RunWatcher.path w))
                    (fst (snd (native_callback fs rn w ev file)))
              \<and> (watcher w \<noteq> None \<longrightarrow> wf_watcher rn (fst (native_callback fs rn w ev file)))
              \<and> (statSync fs (path_join (RunWatcher.path w) file) = Some Directory \<longrightarrow>
                    added_entries (fst (snd (native_callback fs rn w ev file))) = [])" for ev "file"
    proof (intro conjI impI)
      show "directories (fst (native_callback fs rn w ev file)) = None" by (rule S(5))
      show "list_all (about_own_file (RunWatcher.path w))
                    (fst (snd (native_callback fs rn w ev file)))" by (rule S(6))
      show "wf_watcher rn (fst (native_callback fs rn w ev file))" if "watcher w \<noteq> None"
        using wf that by (rule nonrecursive_callback_wf)
      show "added_entries (fst (snd (native_callback fs rn w ev file))) = []"
        if "statSync fs (path_join (RunWatcher.path w) file) = Some Directory"
        using wf d that by (rule nonrecursive_directory_ignored)
    qed
    show "directories (fst (watch fs rn w)) = None
        \<and> list_all (about_own_file (RunWatcher.path w)) (fst (snd (watch fs rn w)))
        \<and> directories (fst (stop w)) = None
        \<and> list_all (about_own_file (RunWatcher.path w)) (fst (snd (stop w)))
        \<and> (\<forall>ev file.
              directories (fst (native_callback fs rn w ev file)) = None
              \<and> list_all (about_own_file (RunWatcher.path w))
                    (fst (snd (native_callback fs rn w ev file)))
              \<and> (watcher w \<noteq> None \<longrightarrow> wf_watcher rn (fst (native_callback fs rn w ev file)))
              \<and> (statSync fs (path_join (RunWatcher.path w) file) = Some Directory \<longrightarrow>
                    added_entries (fst (snd (native_callback fs rn w ev file))) = []))"
    proof (intro conjI allI)
      show "directories (fst (watch fs rn w)) = None" by (rule S(1))
      show "list_all (about_own_file (RunWatcher.path w)) (fst (snd (watch fs rn w)))" by (rule S(2))
      show "directories (fst (stop w)) = None" by (rule S(3))
      show "list_all (about_own_file (RunWatcher.path w)) (fst (snd (stop w)))" by (rule S(4))
    next
      fix ev "file"
      from N[of ev "file"] show "directories (fst (native_callback fs rn w ev file)) = None" by blast
      from N[of ev "file"] show "list_all (about_own_file (RunWatcher.path w))
                    (fst (snd (native_callback fs rn w ev file)))" by blast
      from N[of ev "file"] show "watcher w \<noteq> None \<longrightarrow> wf_watcher rn (fst (native_callback fs rn w ev file))"
        by blast
      from N[of ev "file"] show "statSync fs (path_join (RunWatcher.path w) file) = Some Directory \<longrightarrow>
                    added_entries (fst (snd (native_callback fs rn w ev file))) = []" by blast
    qed
  qed
  from A B show ?thesis by (rule conjI)
qed


text \<open>The claim as stated has a watcher without a directory table created for every
  subdirectory found under a root. When the subdirectory is a target of its own, the guard
  \<^verbatim>\<open>!this.#watchers[add.path]\<close> finds its watcher registered, and the adder creates nothing:
  the watcher registered for \<^verbatim>\<open>/srv/a\<close> stays the one \<^verbatim>\<open>add\<close> built, with a directory
  table.\<close>

theorem registered_subdirectory_counterexample:
  "add demo_fs ''/srv/a'' (fst (add demo_fs ''/srv'' new_RunDir)) = (demo_nested, None)
   \<and> isDirectory (demo_entry ''/srv'' ''a'' Directory)
   \<and> adder demo_fs demo_realname demo_loader (demo_entry ''/srv'' ''a'' Directory) demo_nested
       = (demo_nested, None)
   \<and> map_of (watchers demo_nested) ''/srv/a'' = Some (new_RunWatcher ''/srv/a'' True)
   \<and> directories (new_RunWatcher ''/srv/a'' True) = Some []
   \<and> watcher (new_RunWatcher ''/srv/a'' True) = None"
  by (simp add: add_def demo_fs_def new_RunDir_def js_get_def object_prototype_keys_def
      demo_nested_def adder.simps demo_entry_def fileInfo_def path_join_def new_RunWatcher_def)

theorem watch_depth_is_one_level_witness:
  "\<not> isFile (demo_entry ''/srv'' ''a'' Directory)
   \<and> isDirectory (demo_entry ''/srv'' ''a'' Directory)
   \<and> js_get (watchers new_RunDir) (info.path (demo_entry ''/srv'' ''a'' Directory)) = Undefined
   \<and> watchers (fst (adder demo_fs demo_realname demo_loader
                        (demo_entry ''/srv'' ''a'' Directory) new_RunDir))
       = [(''/srv/a'', demo_sub)]
   \<and> snd (adder demo_fs demo_realname demo_loader (demo_entry ''/srv'' ''a'' Directory) new_RunDir)
       = None
   \<and> wf_watcher demo_realname demo_sub \<and> directories demo_sub = None
   \<and> statSync demo_fs (path_join (RunWatcher.path demo_sub) ''deep'') = Some Directory
   \<and> added_entries (fst (snd (native_callback demo_fs demo_realname demo_sub ''rename'' ''deep'')))
       = []
   \<and> directories (fst (native_callback demo_fs demo_realname demo_sub ''rename'' ''deep'')) = None"
proof -
  let ?a = "demo_entry ''/srv'' ''a'' Directory"
  have h: "\<not> isFile ?a \<and> isDirectory ?a \<and> js_get (watchers new_RunDir) (info.path ?a) = Undefined"
    by (simp add: demo_entry_def new_RunDir_def js_get_def object_prototype_keys_def path_join_def)
  have p: "info.path ?a = ''/srv/a''" by (simp add: demo_entry_def path_join_def)
  have "directories demo_sub = None" by (simp add: demo_sub_def)
  with demo_sub_wf have k: "wf_watcher demo_realname demo_sub \<and> directories demo_sub = None"
    by (rule conjI)
  have sd: "statSync demo_fs (path_join (RunWatcher.path demo_sub) ''deep'') = Some Directory"
    by (simp add: demo_sub_def demo_fs_def path_join_def)
  note T = watch_depth_is_one_level[where a = "?a" and st = new_RunDir and fs = demo_fs
      and rn = demo_realname and ld = demo_loader and w = demo_sub]
  from T[THEN conjunct1] h
  have 1: "snd (adder demo_fs demo_realname demo_loader ?a new_RunDir) = None"
    and 2: "watchers (fst (adder demo_fs demo_realname demo_loader ?a new_RunDir)) =
          watchers new_RunDir
            @ [(info.path ?a, fst (watch demo_fs demo_realname (new_RunWatcher (info.path ?a) False)))]"
    by blast+
  from 2 have 3: "watchers (fst (adder demo_fs demo_realname demo_loader ?a new_RunDir))
       = [(''/srv/a'', demo_sub)]"
    unfolding p by (simp add: demo_sub_watch_eq new_RunDir_def)
  from T[THEN conjunct2] k sd
  have 4: "added_entries (fst (snd (native_callback demo_fs demo_realname demo_sub ''rename'' ''deep''))) = []"
    and 5: "directories (fst (native_callback demo_fs demo_realname demo_sub ''rename'' ''deep'')) = None"
    by blast+
  from h 1 3 k sd 4 5 show ?thesis by blast
qed


end
